theory Spec2Isabelle
  imports Complex_Main "HOL-Library.Signed_Division" "HOL-Library.Sublist"
begin

section \<open>Photo Coloring Converter: image pipeline and vector extraction\<close>

text \<open>
  A shallow embedding of the two classes of the repository that carry the algorithms:
  \<^verbatim>\<open>ImageProcessingEngine\<close> (image_processor_js.js) and \<^verbatim>\<open>SVGVectorGenerator\<close>
  (the SVG vector generator). JavaScript numbers that hold coordinates, distances and
  tolerances are modelled as real numbers, so every arithmetic operation is exact; the
  rounding of IEEE doubles is outside the model. Pixel channels are the elements of a
  \<^verbatim>\<open>Uint8ClampedArray\<close>, natural numbers from 0 to 255.
\<close>

subsection \<open>Points and contour smoothing\<close>

text \<open>A point object \<^verbatim>\<open>{ x, y }\<close>.\<close>

record point =
  px :: real
  py :: real

text \<open>
  \<^verbatim>\<open>smoothContour(contour)\<close>: a contour shorter than 5 points is returned as it is.
  Otherwise each output point is \<^verbatim>\<open>sumX / count\<close>, \<^verbatim>\<open>sumY / count\<close>, accumulated by
  the inner loop over \<^verbatim>\<open>j = -windowSize .. windowSize\<close> at the index
  \<^verbatim>\<open>(i + j + contour.length) % contour.length\<close>. The operator \<^verbatim>\<open>%\<close> of JavaScript
  truncates towards zero, which is \<open>smod\<close>.
\<close>

definition smoothContour :: "point list \<Rightarrow> point list" where
  "smoothContour contour =
     (if length contour < 5 then contour
      else
        let windowSize = min 5 (length contour div 10) in
        map (\<lambda>i.
              let (sumX, sumY, count) =
                    fold (\<lambda>j (sumX, sumY, count).
                            let idx = nat ((int i + j + int (length contour))
                                           smod int (length contour))
                            in (sumX + px (contour ! idx), sumY + py (contour ! idx),
                                count + (1::real)))
                         [- int windowSize .. int windowSize] (0, 0, 0)
              in \<lparr> px = sumX / count, py = sumY / count \<rparr>)
            [0 ..< length contour])"

definition ramp10 :: "point list" where
  "ramp10 = [\<lparr>px = 0, py = 0\<rparr>, \<lparr>px = 1, py = 0\<rparr>, \<lparr>px = 2, py = 0\<rparr>,
             \<lparr>px = 3, py = 3\<rparr>, \<lparr>px = 4, py = 0\<rparr>, \<lparr>px = 5, py = 0\<rparr>,
             \<lparr>px = 6, py = 0\<rparr>, \<lparr>px = 7, py = 0\<rparr>, \<lparr>px = 8, py = 0\<rparr>,
             \<lparr>px = 9, py = 6\<rparr>]"

lemma smooth_window_fold:
  "fold (\<lambda>j (sumX, sumY, count). (sumX + f j, sumY + g j, count + (1::real))) js (a, b, c)
     = (a + sum_list (map f js), b + sum_list (map g js), c + real (length js))"
  by (induction js arbitrary: a b c) (simp_all add: algebra_simps)

lemma smooth_index:
  assumes "5 \<le> n" and "- int (min 5 (n div 10)) \<le> j" and "i < n"
  shows "(int i + j + int n) smod int n = (int i + j) mod int n"
proof -
  have "int (min 5 (n div 10)) \<le> int n" by simp
  with assms have nonneg: "0 \<le> int i + j + int n" by linarith
  have shift: "(int i + j + int n) mod int n = (int i + j) mod int n" by simp
  have "(int i + j + int n) smod int n = (int i + j + int n) mod int n"
    using nonneg assms(1) by (cases "int i + j + int n = 0") (simp_all add: signed_modulo_int_def sgn_if)
  with shift show ?thesis by simp
qed

text \<open>
  C7. Smoothing keeps the length; a contour of fewer than 5 points is returned exactly
  as it is; for 5 points or more, output point \<open>i\<close> is the average of the input points at
  the indices \<open>(i + j) mod len\<close> for \<open>j\<close> from \<open>-w\<close> to \<open>w\<close>, with
  \<open>w = min 5 (len div 10)\<close>.
\<close>

theorem smoothContour_spec:
  "length (smoothContour c) = length c
   \<and> (length c < 5 \<longrightarrow> smoothContour c = c)
   \<and> (5 \<le> length c \<longrightarrow>
        (\<forall>i < length c.
           px (smoothContour c ! i)
             = (\<Sum>j = - int (min 5 (length c div 10)) .. int (min 5 (length c div 10)).
                  px (c ! nat ((int i + j) mod int (length c))))
               / real (2 * min 5 (length c div 10) + 1)
         \<and> py (smoothContour c ! i)
             = (\<Sum>j = - int (min 5 (length c div 10)) .. int (min 5 (length c div 10)).
                  py (c ! nat ((int i + j) mod int (length c))))
               / real (2 * min 5 (length c div 10) + 1)))"
proof (intro conjI impI allI)
  show "length (smoothContour c) = length c"
    by (simp add: smoothContour_def Let_def)
next
  assume "length c < 5"
  then show "smoothContour c = c" by (simp add: smoothContour_def)
next
  fix i
  assume len: "5 \<le> length c" and i: "i < length c"
  let ?w = "min 5 (length c div 10)" and ?n = "length c"
  have idx: "\<And>j. j \<in> set [- int ?w .. int ?w] \<Longrightarrow>
               (int i + j + int ?n) smod int ?n = (int i + j) mod int ?n"
    using smooth_index [of ?n _ i] len i by simp
  have sx: "sum_list (map (\<lambda>j. px (c ! nat ((int i + j + int ?n) smod int ?n))) [- int ?w .. int ?w])
            = (\<Sum>j = - int ?w .. int ?w. px (c ! nat ((int i + j) mod int ?n)))"
    using idx by (simp add: interv_sum_list_conv_sum_set_int)
  have sy: "sum_list (map (\<lambda>j. py (c ! nat ((int i + j + int ?n) smod int ?n))) [- int ?w .. int ?w])
            = (\<Sum>j = - int ?w .. int ?w. py (c ! nat ((int i + j) mod int ?n)))"
    using idx by (simp add: interv_sum_list_conv_sum_set_int)
  have pt: "smoothContour c ! i =
        \<lparr> px = sum_list (map (\<lambda>j. px (c ! nat ((int i + j + int ?n) smod int ?n))) [- int ?w .. int ?w])
                 / real (2 * ?w + 1),
          py = sum_list (map (\<lambda>j. py (c ! nat ((int i + j + int ?n) smod int ?n))) [- int ?w .. int ?w])
                 / real (2 * ?w + 1) \<rparr>"
    using len i
    by (simp add: smoothContour_def Let_def smooth_window_fold add.commute)
  show "px (smoothContour c ! i)
        = (\<Sum>j = - int ?w .. int ?w. px (c ! nat ((int i + j) mod int ?n))) / real (2 * ?w + 1)"
    by (simp only: pt sx point.simps)
  show "py (smoothContour c ! i)
        = (\<Sum>j = - int ?w .. int ?w. py (c ! nat ((int i + j) mod int ?n))) / real (2 * ?w + 1)"
    by (simp only: pt sy point.simps)
qed

theorem smoothContour_spec_witness:
  "length (smoothContour ramp10) = length ramp10
   \<and> px (smoothContour ramp10 ! 0) = 10 / 3
   \<and> py (smoothContour ramp10 ! 0) = 2
   \<and> smoothContour (take 4 ramp10) = take 4 ramp10"
proof -
  have len: "length ramp10 = 10" by (simp add: ramp10_def)
  have ups: "{- 1 .. (1::int)} = {-1, 0, 1}" by auto
  have "5 \<le> length ramp10" and "0 < length ramp10" by (simp_all add: len)
  with smoothContour_spec [of ramp10]
  have "px (smoothContour ramp10 ! 0)
          = (\<Sum>j = - int (min 5 (length ramp10 div 10)) .. int (min 5 (length ramp10 div 10)).
               px (ramp10 ! nat ((int 0 + j) mod int (length ramp10))))
            / real (2 * min 5 (length ramp10 div 10) + 1)
        \<and> py (smoothContour ramp10 ! 0)
          = (\<Sum>j = - int (min 5 (length ramp10 div 10)) .. int (min 5 (length ramp10 div 10)).
               py (ramp10 ! nat ((int 0 + j) mod int (length ramp10))))
            / real (2 * min 5 (length ramp10 div 10) + 1)"
    by blast
  then have a: "px (smoothContour ramp10 ! 0) = 10 / 3 \<and> py (smoothContour ramp10 ! 0) = 2"
    by (simp add: len ups) (simp add: ramp10_def)
  have b: "smoothContour (take 4 ramp10) = take 4 ramp10"
    using smoothContour_spec [of "take 4 ramp10"] by (simp add: len)
  show ?thesis using a b smoothContour_spec [of ramp10] by simp
qed

subsection \<open>Perpendicular distance\<close>

text \<open>
  \<^verbatim>\<open>perpendicularDistance(point, lineStart, lineEnd)\<close>. The division
  \<^verbatim>\<open>dot / lenSq\<close> is reached only when \<^verbatim>\<open>lenSq\<close> is not 0; when it is 0 the
  function returns \<^verbatim>\<open>Math.sqrt(A * A + B * B)\<close>. The parameter of the projection is
  clamped to the chord: below 0 the nearest point is \<^verbatim>\<open>lineStart\<close>, above 1 it is
  \<^verbatim>\<open>lineEnd\<close>.
\<close>

definition perpendicularDistance :: "point \<Rightarrow> point \<Rightarrow> point \<Rightarrow> real" where
  "perpendicularDistance point lineStart lineEnd =
     (let A = px point - px lineStart;
          B = py point - py lineStart;
          C = px lineEnd - px lineStart;
          D = py lineEnd - py lineStart;
          dot = A * C + B * D;
          lenSq = C * C + D * D
      in if lenSq = 0 then sqrt (A * A + B * B)
         else
           let param = dot / lenSq;
               (xx, yy) = (if param < 0 then (px lineStart, py lineStart)
                           else if param > 1 then (px lineEnd, py lineEnd)
                           else (px lineStart + param * C, py lineStart + param * D));
               dx = px point - xx;
               dy = py point - yy
           in sqrt (dx * dx + dy * dy))"

text \<open>
  The notions the specification speaks of: the Euclidean distance of two points, the point
  \<open>a + t (b - a)\<close> of the line through \<open>a\<close> and \<open>b\<close>, the distance of a point to that
  (infinite) line, and the parameter of the foot of the perpendicular.
\<close>

definition euclidean :: "point \<Rightarrow> point \<Rightarrow> real" where
  "euclidean p q = sqrt ((px p - px q)\<^sup>2 + (py p - py q)\<^sup>2)"

definition along :: "point \<Rightarrow> point \<Rightarrow> real \<Rightarrow> point" where
  "along a b t = \<lparr> px = px a + t * (px b - px a), py = py a + t * (py b - py a) \<rparr>"

definition lineDistance :: "point \<Rightarrow> point \<Rightarrow> point \<Rightarrow> real" where
  "lineDistance p a b =
     \<bar>(px p - px a) * (py b - py a) - (py p - py a) * (px b - px a)\<bar>
       / sqrt ((px b - px a)\<^sup>2 + (py b - py a)\<^sup>2)"

lemma quad_form:
  fixes A B C D t :: real
  assumes "C * C + D * D \<noteq> 0"
  shows "(A - t * C)\<^sup>2 + (B - t * D)\<^sup>2
         = (C * C + D * D) * (t - (A * C + B * D) / (C * C + D * D))\<^sup>2
           + (A * D - B * C)\<^sup>2 / (C * C + D * D)"
proof -
  define L where "L = C * C + D * D"
  define dot where "dot = A * C + B * D"
  have L: "L \<noteq> 0" using assms by (simp add: L_def)
  have key: "L * ((A - t * C)\<^sup>2 + (B - t * D)\<^sup>2) = (L * t - dot)\<^sup>2 + (A * D - B * C)\<^sup>2"
    unfolding L_def dot_def by (simp add: power2_eq_square algebra_simps)
  have sq: "L * (t - dot / L)\<^sup>2 = (L * t - dot)\<^sup>2 / L"
    using L by (simp add: power2_eq_square field_simps)
  have "L * (t - dot / L)\<^sup>2 + (A * D - B * C)\<^sup>2 / L
        = ((L * t - dot)\<^sup>2 + (A * D - B * C)\<^sup>2) / L"
    by (simp add: sq add_divide_distrib)
  also have "\<dots> = (A - t * C)\<^sup>2 + (B - t * D)\<^sup>2"
    using L by (simp add: key [symmetric])
  finally show ?thesis by (simp add: L_def dot_def)
qed

definition footParam :: "point \<Rightarrow> point \<Rightarrow> point \<Rightarrow> real" where
  "footParam p a b =
     ((px p - px a) * (px b - px a) + (py p - py a) * (py b - py a))
       / ((px b - px a) * (px b - px a) + (py b - py a) * (py b - py a))"

lemma lenSq_zero_iff:
  "(px b - px a) * (px b - px a) + (py b - py a) * (py b - py a) = 0 \<longleftrightarrow> (a::point) = b"
  by (auto simp: sum_squares_eq_zero_iff)

lemma euclidean_along:
  assumes "(a::point) \<noteq> b"
  shows "euclidean p (along a b t)
         = sqrt (((px b - px a) * (px b - px a) + (py b - py a) * (py b - py a))
                   * (t - footParam p a b)\<^sup>2
                 + ((px p - px a) * (py b - py a) - (py p - py a) * (px b - px a))\<^sup>2
                   / ((px b - px a) * (px b - px a) + (py b - py a) * (py b - py a)))"
proof -
  have L: "(px b - px a) * (px b - px a) + (py b - py a) * (py b - py a) \<noteq> 0"
    using assms lenSq_zero_iff [of b a] by blast
  have "euclidean p (along a b t)
        = sqrt ((px p - px a - t * (px b - px a))\<^sup>2 + (py p - py a - t * (py b - py a))\<^sup>2)"
    by (simp add: euclidean_def along_def algebra_simps)
  then show ?thesis
    by (simp only: quad_form [OF L] footParam_def)
qed

lemma perpendicularDistance_along:
  assumes "(a::point) \<noteq> b"
  shows "perpendicularDistance p a b
         = euclidean p (along a b (max 0 (min 1 (footParam p a b))))"
proof -
  have L: "(px b - px a) * (px b - px a) + (py b - py a) * (py b - py a) \<noteq> 0"
    using assms lenSq_zero_iff [of b a] by blast
  show ?thesis
    using L
    by (auto simp: perpendicularDistance_def Let_def euclidean_def along_def footParam_def
          power2_eq_square min_def max_def)
qed

lemma clamp_nearest:
  fixes t q :: real
  assumes "0 \<le> t" and "t \<le> 1"
  shows "(max 0 (min 1 q) - q)\<^sup>2 \<le> (t - q)\<^sup>2"
proof -
  have "\<bar>max 0 (min 1 q) - q\<bar> \<le> \<bar>t - q\<bar>" using assms by (auto simp: max_def min_def)
  then show ?thesis by (simp add: abs_le_square_iff)
qed

lemma perpendicularDistance_least:
  assumes "(a::point) \<noteq> b" and "0 \<le> t" and "t \<le> 1"
  shows "perpendicularDistance p a b \<le> euclidean p (along a b t)"
proof -
  have L: "0 \<le> (px b - px a) * (px b - px a) + (py b - py a) * (py b - py a)"
    by simp
  show ?thesis
    unfolding perpendicularDistance_along [OF assms(1)] euclidean_along [OF assms(1)]
    by (intro real_sqrt_le_mono add_right_mono mult_left_mono clamp_nearest assms L)
qed

lemma lineDistance_foot:
  assumes "(a::point) \<noteq> b"
  shows "lineDistance p a b = euclidean p (along a b (footParam p a b))"
proof -
  have L: "0 \<le> (px b - px a) * (px b - px a) + (py b - py a) * (py b - py a)"
    by simp
  show ?thesis
    unfolding euclidean_along [OF assms]
    by (simp add: lineDistance_def real_sqrt_divide power2_eq_square [symmetric])
qed

lemma lineDistance_least:
  assumes "(a::point) \<noteq> b"
  shows "lineDistance p a b \<le> euclidean p (along a b t)"
proof -
  have L: "0 \<le> (px b - px a) * (px b - px a) + (py b - py a) * (py b - py a)"
    by simp
  have "(0::real) \<le> (t - footParam p a b)\<^sup>2" by simp
  then show ?thesis
    unfolding lineDistance_foot [OF assms] euclidean_along [OF assms]
    by (intro real_sqrt_le_mono add_right_mono) (simp add: L)
qed

lemma perpendicularDistance_coincident:
  "perpendicularDistance p a a = euclidean p a"
  by (simp add: perpendicularDistance_def Let_def euclidean_def power2_eq_square)

text \<open>
  C8. For coincident reference points the result is the Euclidean distance to
  that point, and no division takes place. For distinct reference points the result is
  the shortest distance from the point to the segment between them: it is attained at a
  point of the segment and no point of the segment is nearer. It equals the distance to
  the infinite line when the foot of the perpendicular lies on the segment.
\<close>

theorem perpendicularDistance_segment:
  "(a = b \<longrightarrow> perpendicularDistance p a b = euclidean p a)
   \<and> (a \<noteq> b \<longrightarrow>
        (\<exists>t. 0 \<le> t \<and> t \<le> 1 \<and> perpendicularDistance p a b = euclidean p (along a b t))
      \<and> (\<forall>t. 0 \<le> t \<and> t \<le> 1 \<longrightarrow> perpendicularDistance p a b \<le> euclidean p (along a b t))
      \<and> (0 \<le> footParam p a b \<and> footParam p a b \<le> 1
            \<longrightarrow> perpendicularDistance p a b = lineDistance p a b))"
proof (intro conjI impI allI)
  assume "a = b"
  then show "perpendicularDistance p a b = euclidean p a"
    by (simp add: perpendicularDistance_coincident)
next
  assume ne: "a \<noteq> b"
  have "0 \<le> max 0 (min 1 (footParam p a b))" and "max 0 (min 1 (footParam p a b)) \<le> 1"
    by simp_all
  then show "\<exists>t. 0 \<le> t \<and> t \<le> 1 \<and> perpendicularDistance p a b = euclidean p (along a b t)"
    using perpendicularDistance_along [OF ne] by blast
next
  fix t :: real
  assume "a \<noteq> b" and "0 \<le> t \<and> t \<le> 1"
  then show "perpendicularDistance p a b \<le> euclidean p (along a b t)"
    by (simp add: perpendicularDistance_least)
next
  assume ne: "a \<noteq> b" and "0 \<le> footParam p a b \<and> footParam p a b \<le> 1"
  then have "max 0 (min 1 (footParam p a b)) = footParam p a b" by simp
  then show "perpendicularDistance p a b = lineDistance p a b"
    by (simp add: perpendicularDistance_along [OF ne] lineDistance_foot [OF ne])
qed

theorem perpendicularDistance_segment_witness:
  "perpendicularDistance \<lparr>px = 3, py = 4\<rparr> \<lparr>px = 0, py = 0\<rparr> \<lparr>px = 0, py = 0\<rparr>
     = euclidean \<lparr>px = 3, py = 4\<rparr> \<lparr>px = 0, py = 0\<rparr>
   \<and> perpendicularDistance \<lparr>px = 1, py = 2\<rparr> \<lparr>px = 0, py = 0\<rparr> \<lparr>px = 4, py = 0\<rparr>
       \<le> euclidean \<lparr>px = 1, py = 2\<rparr> (along \<lparr>px = 0, py = 0\<rparr> \<lparr>px = 4, py = 0\<rparr> (1 / 2))
   \<and> perpendicularDistance \<lparr>px = 1, py = 2\<rparr> \<lparr>px = 0, py = 0\<rparr> \<lparr>px = 4, py = 0\<rparr>
       = lineDistance \<lparr>px = 1, py = 2\<rparr> \<lparr>px = 0, py = 0\<rparr> \<lparr>px = 4, py = 0\<rparr>"
proof -
  let ?p = "\<lparr>px = 1, py = 2\<rparr>" and ?a = "\<lparr>px = 0, py = 0\<rparr>" and ?b = "\<lparr>px = 4, py = 0\<rparr>"
  have ne: "?a \<noteq> ?b" by simp
  have foot: "0 \<le> footParam ?p ?a ?b \<and> footParam ?p ?a ?b \<le> 1"
    by (simp add: footParam_def)
  have half: "(0::real) \<le> 1 / 2 \<and> (1::real) / 2 \<le> 1" by simp
  show ?thesis
    using perpendicularDistance_segment [of ?a ?a "\<lparr>px = 3, py = 4\<rparr>"]
      perpendicularDistance_segment [of ?a ?b ?p] ne foot half
    by blast
qed

text \<open>
  The statement of the specification fails where the foot of the perpendicular falls outside the chord:
  the point (2, 0) lies on the line through (0, 0) and (1, 0), at distance 0 from it, and
  \<open>perpendicularDistance\<close> returns its distance 1 to the nearer end (1, 0).
\<close>

theorem perpendicularDistance_line_counterexample:
  "perpendicularDistance \<lparr>px = 2, py = 0\<rparr> \<lparr>px = 0, py = 0\<rparr> \<lparr>px = 1, py = 0\<rparr> = 1
   \<and> lineDistance \<lparr>px = 2, py = 0\<rparr> \<lparr>px = 0, py = 0\<rparr> \<lparr>px = 1, py = 0\<rparr> = 0"
  by (simp add: perpendicularDistance_def lineDistance_def Let_def)

subsection \<open>Douglas-Peucker simplification\<close>

text \<open>
  The tolerance is a JavaScript number; the specification speaks of the value \<^verbatim>\<open>Infinity\<close>, so
  the model adds it to the reals. \<open>exceeds d tolerance\<close> is the test
  \<^verbatim>\<open>maxDistance > tolerance\<close> for a finite distance \<open>d\<close>.
\<close>

datatype tolerance = Tol real | Infinity

fun exceeds :: "real \<Rightarrow> tolerance \<Rightarrow> bool" where
  "exceeds d (Tol t) = (d > t)"
| "exceeds d Infinity = False"

text \<open>
  The first loop of \<^verbatim>\<open>douglasPeucker\<close>: over \<^verbatim>\<open>i = 1 .. end - 1\<close> it keeps the largest
  distance to the chord from \<^verbatim>\<open>points[0]\<close> to \<^verbatim>\<open>points[end]\<close> and the first index
  that reaches it, starting from \<^verbatim>\<open>maxDistance = 0\<close>, \<^verbatim>\<open>maxIndex = 0\<close>.
\<close>

definition farthest :: "point list \<Rightarrow> real \<times> nat" where
  "farthest points =
     (let endIndex = length points - 1 in
      fold (\<lambda>i (maxDistance, maxIndex).
              let distance = perpendicularDistance (points ! i) (points ! 0) (points ! endIndex)
              in if distance > maxDistance then (distance, i) else (maxDistance, maxIndex))
           [1 ..< endIndex] (0, 0))"

text \<open>
  \<^verbatim>\<open>douglasPeucker(points, tolerance)\<close> recurses on \<^verbatim>\<open>points.slice(0, maxIndex + 1)\<close>
  and \<^verbatim>\<open>points.slice(maxIndex)\<close>. With a negative tolerance and all inner points on
  the chord, \<^verbatim>\<open>maxIndex\<close> is 0 and the second call is on the same sequence again, so the
  recursion does not end: the function is partial, and \<open>None\<close> stands for not returning.
\<close>

partial_function (option) douglasPeucker :: "point list \<Rightarrow> tolerance \<Rightarrow> point list option" where
  "douglasPeucker points tolerance =
     (if length points \<le> 2 then Some points
      else
        case farthest points of (maxDistance, maxIndex) \<Rightarrow>
          if exceeds maxDistance tolerance then
            Option.bind (douglasPeucker (take (maxIndex + 1) points) tolerance) (\<lambda>left.
            Option.bind (douglasPeucker (drop maxIndex points) tolerance) (\<lambda>right.
              Some (butlast left @ right)))
          else Some [points ! 0, points ! (length points - 1)])"

text \<open>The settings object \<^verbatim>\<open>optimizationSettings\<close> of the generator, with its values.\<close>

record optimizationSettings =
  simplifyTolerance :: tolerance
  minPathLength :: nat
  maxPoints :: nat
  smoothingFactor :: real

definition defaultSettings :: optimizationSettings where
  "defaultSettings =
     \<lparr> simplifyTolerance = Tol 2, minPathLength = 10, maxPoints = 1000, smoothingFactor = 3 / 2 \<rparr>"

definition simplifyPath :: "optimizationSettings \<Rightarrow> point list \<Rightarrow> point list option" where
  "simplifyPath settings points =
     (if length points \<le> 2 then Some points
      else douglasPeucker points (simplifyTolerance settings))"

text \<open>A tolerance that is not negative: the only ones the specification speaks of.\<close>

fun nonnegative :: "tolerance \<Rightarrow> bool" where
  "nonnegative (Tol t) = (0 \<le> t)"
| "nonnegative Infinity = True"

text \<open>
  A point is covered by a simplified sequence when it is one of its points or lies within
  the tolerance of the chord between two consecutive points of it.
\<close>

definition covered :: "tolerance \<Rightarrow> point list \<Rightarrow> point \<Rightarrow> bool" where
  "covered tolerance r p \<longleftrightarrow>
     p \<in> set r \<or>
     (\<exists>i. Suc i < length r \<and> \<not> exceeds (perpendicularDistance p (r ! i) (r ! Suc i)) tolerance)"

lemma farthest_fold:
  assumes "fold (\<lambda>i (maxDistance, maxIndex).
                   if d i > maxDistance then (d i, i) else (maxDistance, maxIndex)) js (m0, k0)
           = (m, k)"
  shows "m0 \<le> (m::real) \<and> (\<forall>i \<in> set js. d i \<le> m) \<and> ((m = m0 \<and> k = k0) \<or> (k \<in> set js \<and> m0 < m))"
  using assms
proof (induction js arbitrary: m0 k0)
  case Nil
  then show ?case by simp
next
  case (Cons j js)
  show ?case
  proof (cases "d j > m0")
    case True
    with Cons.prems have "fold (\<lambda>i (maxDistance, maxIndex).
                   if d i > maxDistance then (d i, i) else (maxDistance, maxIndex)) js (d j, j)
           = (m, k)" by simp
    from Cons.IH [OF this] True show ?thesis by auto
  next
    case False
    with Cons.prems have "fold (\<lambda>i (maxDistance, maxIndex).
                   if d i > maxDistance then (d i, i) else (maxDistance, maxIndex)) js (m0, k0)
           = (m, k)" by simp
    from Cons.IH [OF this] False show ?thesis by auto
  qed
qed

lemma farthest_props:
  assumes "farthest points = (m, k)"
  shows "0 \<le> m"
    and "\<forall>i. 1 \<le> i \<and> i < length points - 1 \<longrightarrow>
           perpendicularDistance (points ! i) (points ! 0) (points ! (length points - 1)) \<le> m"
    and "0 < m \<Longrightarrow> 1 \<le> k \<and> k < length points - 1"
proof -
  let ?d = "\<lambda>i. perpendicularDistance (points ! i) (points ! 0) (points ! (length points - 1))"
  have "fold (\<lambda>i (maxDistance, maxIndex).
                if ?d i > maxDistance then (?d i, i) else (maxDistance, maxIndex))
             [1 ..< length points - 1] (0, 0) = (m, k)"
    using assms unfolding farthest_def Let_def .
  from farthest_fold [OF this]
  have *: "0 \<le> m \<and> (\<forall>i \<in> set [1 ..< length points - 1]. ?d i \<le> m)
           \<and> ((m = 0 \<and> k = 0) \<or> (k \<in> set [1 ..< length points - 1] \<and> 0 < m))" .
  from * show "0 \<le> m" by blast
  from * show "\<forall>i. 1 \<le> i \<and> i < length points - 1 \<longrightarrow> ?d i \<le> m" by simp
  from * show "0 < m \<Longrightarrow> 1 \<le> k \<and> k < length points - 1" by auto
qed

lemma exceeds_mono: "\<not> exceeds m tol \<Longrightarrow> d \<le> m \<Longrightarrow> \<not> exceeds d tol"
  by (cases tol) auto

lemma exceeds_positive: "nonnegative tol \<Longrightarrow> exceeds m tol \<Longrightarrow> 0 < m"
  by (cases tol) auto

lemma subseq_ends:
  assumes "2 \<le> length xs"
  shows "subseq [hd xs, last xs] xs"
proof -
  from assms obtain a ys where xs: "xs = a # ys" and "ys \<noteq> []"
    by (cases xs) (simp, fastforce)
  then obtain mid b where ys: "ys = mid @ [b]" by (cases ys rule: rev_cases) auto
  have "subseq ([] @ [b]) (mid @ [b])" by (simp only: subseq_append) simp
  then show ?thesis by (simp add: xs ys)
qed

lemma covered_join:
  assumes l: "l \<noteq> []" and r: "r \<noteq> []" and join: "last l = hd r"
    and cov: "covered tol l p \<or> covered tol r p"
  shows "covered tol (butlast l @ r) p"
proof -
  have eq: "butlast l @ r = l @ tl r"
  proof -
    have "l @ tl r = butlast l @ [last l] @ tl r" using l by simp
    also have "[last l] @ tl r = r" using r join by simp
    finally show ?thesis by simp
  qed
  from cov show ?thesis
  proof
    assume "covered tol l p"
    then show ?thesis
      unfolding covered_def eq
    proof
      assume "p \<in> set l"
      then show "p \<in> set (l @ tl r) \<or> (\<exists>i. Suc i < length (l @ tl r) \<and>
                  \<not> exceeds (perpendicularDistance p ((l @ tl r) ! i) ((l @ tl r) ! Suc i)) tol)"
        by simp
    next
      assume "\<exists>i. Suc i < length l \<and> \<not> exceeds (perpendicularDistance p (l ! i) (l ! Suc i)) tol"
      then obtain i where "Suc i < length l"
        and "\<not> exceeds (perpendicularDistance p (l ! i) (l ! Suc i)) tol" by blast
      then have "Suc i < length (l @ tl r) \<and>
                  \<not> exceeds (perpendicularDistance p ((l @ tl r) ! i) ((l @ tl r) ! Suc i)) tol"
        by (simp add: nth_append)
      then show "p \<in> set (l @ tl r) \<or> (\<exists>i. Suc i < length (l @ tl r) \<and>
                  \<not> exceeds (perpendicularDistance p ((l @ tl r) ! i) ((l @ tl r) ! Suc i)) tol)"
        by blast
    qed
  next
    assume "covered tol r p"
    then show ?thesis
      unfolding covered_def
    proof
      assume "p \<in> set r"
      then show "p \<in> set (butlast l @ r) \<or> (\<exists>i. Suc i < length (butlast l @ r) \<and>
                  \<not> exceeds (perpendicularDistance p ((butlast l @ r) ! i) ((butlast l @ r) ! Suc i)) tol)"
        by simp
    next
      assume "\<exists>i. Suc i < length r \<and> \<not> exceeds (perpendicularDistance p (r ! i) (r ! Suc i)) tol"
      then obtain i where "Suc i < length r"
        and "\<not> exceeds (perpendicularDistance p (r ! i) (r ! Suc i)) tol" by blast
      then have "Suc (length (butlast l) + i) < length (butlast l @ r) \<and>
                  \<not> exceeds (perpendicularDistance p ((butlast l @ r) ! (length (butlast l) + i))
                       ((butlast l @ r) ! Suc (length (butlast l) + i))) tol"
        by (simp add: nth_append)
      then show "p \<in> set (butlast l @ r) \<or> (\<exists>i. Suc i < length (butlast l @ r) \<and>
                  \<not> exceeds (perpendicularDistance p ((butlast l @ r) ! i) ((butlast l @ r) ! Suc i)) tol)"
        by blast
    qed
  qed
qed

lemma douglasPeucker_main:
  assumes tol: "nonnegative tol"
  shows "\<exists>r. douglasPeucker pts tol = Some r \<and> length r \<le> length pts \<and> subseq r pts
           \<and> (length pts \<le> 2 \<longrightarrow> r = pts)
           \<and> (2 \<le> length pts \<longrightarrow> 2 \<le> length r \<and> hd r = hd pts \<and> last r = last pts)
           \<and> (\<forall>p \<in> set pts. covered tol r p)"
proof (induction pts rule: length_induct)
  case (1 pts)
  show ?case
  proof (cases "length pts \<le> 2")
    case True
    then have "douglasPeucker pts tol = Some pts"
      by (subst douglasPeucker.simps) simp
    then show ?thesis by (simp add: covered_def)
  next
    case False
    then have n3: "3 \<le> length pts" by simp
    obtain m k where far: "farthest pts = (m, k)" by (cases "farthest pts")
    show ?thesis
    proof (cases "exceeds m tol")
      case True
      from exceeds_positive [OF tol True] have "0 < m" .
      from farthest_props(3) [OF far this] have k1: "1 \<le> k" and k2: "k < length pts - 1" by auto
      let ?L = "take (k + 1) pts" and ?R = "drop k pts"
      have lenL: "length ?L = k + 1" using k2 by simp
      have lenR: "length ?R = length pts - k" by simp
      have "length ?L < length pts" using k2 lenL by linarith
      with 1 obtain l where l: "douglasPeucker ?L tol = Some l"
        and l_len: "length l \<le> length ?L" and l_sub: "subseq l ?L"
        and l_ends: "2 \<le> length ?L \<longrightarrow> 2 \<le> length l \<and> hd l = hd ?L \<and> last l = last ?L"
        and l_cov: "\<forall>p \<in> set ?L. covered tol l p"
        by blast
      have "length ?R < length pts" using k1 n3 by simp
      with 1 obtain r where r: "douglasPeucker ?R tol = Some r"
        and r_len: "length r \<le> length ?R" and r_sub: "subseq r ?R"
        and r_ends: "2 \<le> length ?R \<longrightarrow> 2 \<le> length r \<and> hd r = hd ?R \<and> last r = last ?R"
        and r_cov: "\<forall>p \<in> set ?R. covered tol r p"
        by blast
      have L2: "2 \<le> length ?L" using k1 lenL by linarith
      have R2: "2 \<le> length ?R" using k2 lenR by linarith
      have lastL: "last ?L = pts ! k"
        using k2 by (simp add: take_Suc_conv_app_nth)
      have l2: "2 \<le> length l" and hd_l: "hd l = hd pts" and last_l: "last l = pts ! k"
        using l_ends L2 lastL by simp_all
      have r2: "2 \<le> length r" and hd_r: "hd r = pts ! k" and last_r: "last r = last pts"
        using r_ends R2 k2 by (simp_all add: hd_drop_conv_nth)
      have l_ne: "l \<noteq> []" and r_ne: "r \<noteq> []" using l2 r2 by auto
      have dp: "douglasPeucker pts tol = Some (butlast l @ r)"
        by (subst douglasPeucker.simps) (use False far True l r in simp)
      have len: "length (butlast l @ r) \<le> length pts"
        using l_len r_len lenL lenR k2 l_ne by simp
      have sub: "subseq (butlast l @ r) pts"
      proof -
        have "?L = take k pts @ [pts ! k]" using k2 by (simp add: take_Suc_conv_app_nth)
        moreover have "l = butlast l @ [pts ! k]" using l_ne last_l by (metis append_butlast_last_id)
        ultimately have "subseq (butlast l @ [pts ! k]) (take k pts @ [pts ! k])"
          using l_sub by simp
        then have "subseq (butlast l) (take k pts)" by (simp only: subseq_append)
        then have "subseq (butlast l @ r) (take k pts @ drop k pts)"
          using r_sub by (rule list_emb_append_mono)
        then show ?thesis by simp
      qed
      have bl_ne: "butlast l \<noteq> []" using l2 by (cases l rule: rev_cases) auto
      have ends: "2 \<le> length (butlast l @ r) \<and> hd (butlast l @ r) = hd pts
                  \<and> last (butlast l @ r) = last pts"
        using bl_ne r_ne r2 hd_l last_r l_ne by (cases l) (auto simp: hd_append)
      have cov: "\<forall>p \<in> set pts. covered tol (butlast l @ r) p"
      proof
        fix p assume "p \<in> set pts"
        then have "p \<in> set (take k pts) \<union> set (drop k pts)"
          by (metis append_take_drop_id set_append)
        moreover have "set (take k pts) \<subseteq> set ?L" by (simp add: set_take_subset_set_take)
        ultimately have "p \<in> set ?L \<or> p \<in> set ?R" by blast
        then have "covered tol l p \<or> covered tol r p" using l_cov r_cov by blast
        with covered_join [OF l_ne r_ne] last_l hd_r show "covered tol (butlast l @ r) p"
          by simp
      qed
      from dp len sub ends cov False show ?thesis by simp
    next
      case nex: False
      let ?n = "length pts"
      let ?r = "[pts ! 0, pts ! (?n - 1)]"
      have dp: "douglasPeucker pts tol = Some ?r"
        by (subst douglasPeucker.simps) (simp add: False far nex)
      have ne: "pts \<noteq> []" using n3 by auto
      have h: "pts ! 0 = hd pts" and la: "pts ! (?n - 1) = last pts"
        using ne by (simp_all add: hd_conv_nth last_conv_nth)
      have la': "pts ! (?n - Suc 0) = last pts" using la by simp
      have sub: "subseq ?r pts" using subseq_ends [of pts] n3 by (simp add: h la')
      have cov: "\<forall>p \<in> set pts. covered tol ?r p"
      proof
        fix p assume "p \<in> set pts"
        then obtain i where i: "i < ?n" and p: "p = pts ! i" by (auto simp: in_set_conv_nth)
        show "covered tol ?r p"
        proof (cases "i = 0 \<or> i = ?n - 1")
          case True
          then show ?thesis by (auto simp: covered_def p)
        next
          case False
          then have "1 \<le> i \<and> i < ?n - 1" using i by linarith
          with farthest_props(2) [OF far]
          have "perpendicularDistance p (pts ! 0) (pts ! (?n - 1)) \<le> m" by (simp add: p)
          from exceeds_mono [OF nex this]
          have "Suc 0 < length ?r \<and> \<not> exceeds (perpendicularDistance p (?r ! 0) (?r ! Suc 0)) tol"
            by simp
          then show ?thesis unfolding covered_def by blast
        qed
      qed
      from dp sub cov n3 False show ?thesis by (simp add: h la')
    qed
  qed
qed

lemma perpendicularDistance_nonneg: "0 \<le> perpendicularDistance p a b"
  by (simp add: perpendicularDistance_def Let_def split: prod.split)

lemma two_points: "length xs = 2 \<Longrightarrow> [hd xs, last xs] = xs"
  by (cases xs; cases "tl xs") auto

lemma douglasPeucker_short: "length pts \<le> 2 \<Longrightarrow> douglasPeucker pts tol = Some pts"
  by (subst douglasPeucker.simps) simp

lemma douglasPeucker_Infinity:
  assumes "2 \<le> length pts"
  shows "douglasPeucker pts Infinity = Some [hd pts, last pts]"
proof (cases "length pts = 2")
  case True
  then show ?thesis by (simp add: douglasPeucker_short two_points)
next
  case False
  with assms have "pts \<noteq> []" and "\<not> length pts \<le> 2" by auto
  then show ?thesis
    by (subst douglasPeucker.simps)
       (simp add: hd_conv_nth last_conv_nth split: prod.split)
qed

definition collinear3 :: "point list" where
  "collinear3 = [\<lparr>px = 0, py = 0\<rparr>, \<lparr>px = 1, py = 0\<rparr>, \<lparr>px = 2, py = 0\<rparr>]"

definition peak3 :: "point list" where
  "peak3 = [\<lparr>px = 0, py = 0\<rparr>, \<lparr>px = 1, py = 1\<rparr>, \<lparr>px = 2, py = 0\<rparr>]"

text \<open>
  C4. With tolerance 0 the simplification returns a subsequence of the input
  that keeps the first and the last point, and every point of the input is either kept
  or lies at distance 0 from the chord between two consecutive points of the result; a
  sequence of at most two points is returned unchanged. With tolerance \<open>Infinity\<close> a
  sequence of at least two points is reduced to its two end points, and a shorter one is
  returned unchanged.
\<close>

theorem douglasPeucker_extremes:
  "(\<exists>r. douglasPeucker p (Tol 0) = Some r \<and> subseq r p
        \<and> (length p \<le> 2 \<longrightarrow> r = p)
        \<and> (2 \<le> length p \<longrightarrow> hd r = hd p \<and> last r = last p)
        \<and> (\<forall>q \<in> set p. q \<in> set r \<or>
              (\<exists>i. Suc i < length r \<and> perpendicularDistance q (r ! i) (r ! Suc i) = 0)))
   \<and> (2 \<le> length p \<longrightarrow> douglasPeucker p Infinity = Some [hd p, last p])
   \<and> (length p < 2 \<longrightarrow> douglasPeucker p Infinity = Some p)"
proof (intro conjI impI)
  have "nonnegative (Tol 0)" by simp
  from douglasPeucker_main [OF this, of p]
  obtain r where r: "douglasPeucker p (Tol 0) = Some r" and sub: "subseq r p"
    and short: "length p \<le> 2 \<longrightarrow> r = p"
    and ends: "2 \<le> length p \<longrightarrow> 2 \<le> length r \<and> hd r = hd p \<and> last r = last p"
    and cov: "\<forall>q \<in> set p. covered (Tol 0) r q"
    by blast
  have "\<forall>q \<in> set p. q \<in> set r \<or>
          (\<exists>i. Suc i < length r \<and> perpendicularDistance q (r ! i) (r ! Suc i) = 0)"
  proof
    fix q assume "q \<in> set p"
    with cov have "covered (Tol 0) r q" by blast
    then show "q \<in> set r \<or>
          (\<exists>i. Suc i < length r \<and> perpendicularDistance q (r ! i) (r ! Suc i) = 0)"
      unfolding covered_def
      using perpendicularDistance_nonneg [of q] by (auto simp: not_less order_antisym)
  qed
  with r sub short ends
  show "\<exists>r. douglasPeucker p (Tol 0) = Some r \<and> subseq r p
        \<and> (length p \<le> 2 \<longrightarrow> r = p)
        \<and> (2 \<le> length p \<longrightarrow> hd r = hd p \<and> last r = last p)
        \<and> (\<forall>q \<in> set p. q \<in> set r \<or>
              (\<exists>i. Suc i < length r \<and> perpendicularDistance q (r ! i) (r ! Suc i) = 0))"
    by blast
next
  assume "2 \<le> length p"
  then show "douglasPeucker p Infinity = Some [hd p, last p]"
    by (rule douglasPeucker_Infinity)
next
  assume "length p < 2"
  then show "douglasPeucker p Infinity = Some p"
    by (simp add: douglasPeucker_short)
qed

theorem douglasPeucker_extremes_witness:
  "(\<exists>r. douglasPeucker peak3 (Tol 0) = Some r \<and> subseq r peak3
        \<and> hd r = \<lparr>px = 0, py = 0\<rparr> \<and> last r = \<lparr>px = 2, py = 0\<rparr>)
   \<and> douglasPeucker peak3 Infinity = Some [\<lparr>px = 0, py = 0\<rparr>, \<lparr>px = 2, py = 0\<rparr>]
   \<and> douglasPeucker (take 1 peak3) Infinity = Some (take 1 peak3)"
proof -
  have len: "length peak3 = 3" by (simp add: peak3_def)
  have ends: "hd peak3 = \<lparr>px = 0, py = 0\<rparr>" "last peak3 = \<lparr>px = 2, py = 0\<rparr>"
    by (simp_all add: peak3_def)
  have a: "\<exists>r. douglasPeucker peak3 (Tol 0) = Some r \<and> subseq r peak3
        \<and> hd r = \<lparr>px = 0, py = 0\<rparr> \<and> last r = \<lparr>px = 2, py = 0\<rparr>"
    using douglasPeucker_extremes [of peak3] len ends by auto
  have b: "douglasPeucker peak3 Infinity = Some [\<lparr>px = 0, py = 0\<rparr>, \<lparr>px = 2, py = 0\<rparr>]"
    using douglasPeucker_extremes [of peak3] len ends by simp
  have c: "douglasPeucker (take 1 peak3) Infinity = Some (take 1 peak3)"
    using douglasPeucker_extremes [of "take 1 peak3"] len by simp
  from a b c show ?thesis by blast
qed

text \<open>
  The statement of the specification fails on three collinear points: with tolerance 0 the largest
  distance to the chord is 0, the test \<^verbatim>\<open>maxDistance > tolerance\<close> fails and the middle
  point is dropped.
\<close>

theorem douglasPeucker_zero_counterexample:
  "douglasPeucker collinear3 (Tol 0) = Some [\<lparr>px = 0, py = 0\<rparr>, \<lparr>px = 2, py = 0\<rparr>]
   \<and> [\<lparr>px = 0, py = 0\<rparr>, \<lparr>px = 2, py = 0\<rparr>] \<noteq> collinear3"
  by (subst douglasPeucker.simps)
     (simp add: collinear3_def farthest_def perpendicularDistance_def Let_def)

text \<open>
  C5. For every tolerance that is not negative the simplification returns, and its result
  is never longer than its input; a sequence of at most 2 points is returned unchanged,
  by \<open>simplifyPath\<close> and by \<open>douglasPeucker\<close> alike.
\<close>

theorem simplify_never_longer:
  "(length p \<le> 2 \<longrightarrow> simplifyPath st p = Some p \<and> douglasPeucker p tol = Some p)
   \<and> (0 \<le> t \<longrightarrow>
        (\<exists>r. douglasPeucker p (Tol t) = Some r \<and> length r \<le> length p)
      \<and> (\<exists>r. simplifyPath (st\<lparr>simplifyTolerance := Tol t\<rparr>) p = Some r \<and> length r \<le> length p))"
proof (intro conjI impI)
  assume "length p \<le> 2"
  then show "simplifyPath st p = Some p" by (simp add: simplifyPath_def)
next
  assume "length p \<le> 2"
  then show "douglasPeucker p tol = Some p" by (rule douglasPeucker_short)
next
  assume "0 \<le> t"
  then have "nonnegative (Tol t)" by simp
  from douglasPeucker_main [OF this, of p]
  show "\<exists>r. douglasPeucker p (Tol t) = Some r \<and> length r \<le> length p" by blast
  then show "\<exists>r. simplifyPath (st\<lparr>simplifyTolerance := Tol t\<rparr>) p = Some r \<and> length r \<le> length p"
    by (simp add: simplifyPath_def)
qed

theorem simplify_never_longer_witness:
  "simplifyPath defaultSettings (take 2 peak3) = Some (take 2 peak3)
   \<and> (\<exists>r. douglasPeucker peak3 (Tol 2) = Some r \<and> length r \<le> 3)
   \<and> (\<exists>r. simplifyPath defaultSettings peak3 = Some r \<and> length r \<le> 3)"
proof -
  have len: "length peak3 = 3" by (simp add: peak3_def)
  have st: "defaultSettings\<lparr>simplifyTolerance := Tol 2\<rparr> = defaultSettings"
    by (simp add: defaultSettings_def)
  have "(0::real) \<le> 2" by simp
  with simplify_never_longer [of peak3 defaultSettings "Tol 2" 2]
  have "(\<exists>r. douglasPeucker peak3 (Tol 2) = Some r \<and> length r \<le> 3)
        \<and> (\<exists>r. simplifyPath defaultSettings peak3 = Some r \<and> length r \<le> 3)"
    by (simp add: st len)
  moreover have "simplifyPath defaultSettings (take 2 peak3) = Some (take 2 peak3)"
    using simplify_never_longer [of "take 2 peak3" defaultSettings "Tol 2" 2] len by simp
  ultimately show ?thesis by blast
qed

text \<open>
  The recursion does not end for every input: with the tolerance -1 and three collinear
  points the second recursive call is on the same sequence, and the model has no result.
  This is why the results above are stated for tolerances that are not negative.
\<close>

lemma douglasPeucker_negative_diverges:
  "douglasPeucker collinear3 (Tol (- 1)) = None"
proof (rule ccontr)
  assume "douglasPeucker collinear3 (Tol (- 1)) \<noteq> None"
  then obtain r where r: "douglasPeucker collinear3 (Tol (- 1)) = Some r" by auto
  have far: "farthest collinear3 = (0, 0)"
    by (simp add: collinear3_def farthest_def perpendicularDistance_def Let_def)
  have "\<not> (collinear3 = collinear3 \<and> Tol (- 1) = Tol (- 1))"
  proof (rule douglasPeucker.raw_induct
      [where P = "\<lambda>points tolerance result. \<not> (points = collinear3 \<and> tolerance = Tol (- 1))",
        OF _ r])
    fix f points tolerance result
    assume IH: "\<And>points tolerance result. f points tolerance = Some result
                  \<Longrightarrow> \<not> (points = collinear3 \<and> tolerance = Tol (- 1))"
      and body: "(if length points \<le> 2 then Some points
          else case farthest points of (maxDistance, maxIndex) \<Rightarrow>
            if exceeds maxDistance tolerance then
              Option.bind (f (take (maxIndex + 1) points) tolerance) (\<lambda>left.
              Option.bind (f (drop maxIndex points) tolerance) (\<lambda>right.
                Some (butlast left @ right)))
            else Some [points ! 0, points ! (length points - 1)]) = Some result"
    show "\<not> (points = collinear3 \<and> tolerance = Tol (- 1))"
    proof
      assume eq: "points = collinear3 \<and> tolerance = Tol (- 1)"
      have len: "\<not> length collinear3 \<le> 2" by (simp add: collinear3_def)
      from body eq far len
      have "Option.bind (f (take 1 collinear3) (Tol (- 1))) (\<lambda>left.
              Option.bind (f collinear3 (Tol (- 1))) (\<lambda>right.
                Some (butlast left @ right))) = Some result"
        by simp
      then obtain right where "f collinear3 (Tol (- 1)) = Some right"
        by (auto simp: bind_eq_Some_conv)
      from IH [OF this] show False by simp
    qed
  qed
  then show False by simp
qed

subsection \<open>Region tracing\<close>

text \<open>
  An \<^verbatim>\<open>ImageData\<close> object: its dimensions and its \<^verbatim>\<open>Uint8ClampedArray\<close> of channel
  values, 4 per pixel (red, green, blue, alpha) in row-major order.
\<close>

record ImageData =
  img_width :: nat
  img_height :: nat
  img_data :: "nat list"

text \<open>
  \<^verbatim>\<open>createBinaryMap(data, width, height)\<close>: row \<open>y\<close>, column \<open>x\<close> is 1 when the red
  channel of the pixel is below 128, else 0.
\<close>

definition createBinaryMap :: "nat list \<Rightarrow> nat \<Rightarrow> nat \<Rightarrow> nat list list" where
  "createBinaryMap data width height =
     map (\<lambda>y. map (\<lambda>x. let idx = (y * width + x) * 4
                       in if data ! idx < 128 then 1 else 0)
                 [0 ..< width])
         [0 ..< height]"

text \<open>The 8 neighbours, in the order of the array \<^verbatim>\<open>directions\<close>.\<close>

definition directions :: "(int \<times> int) list" where
  "directions = [(-1, -1), (-1, 0), (-1, 1), (0, -1), (0, 1), (1, -1), (1, 0), (1, 1)]"

text \<open>
  The loop of \<^verbatim>\<open>traceContour\<close>. The stack is a list with its top first, so
  \<^verbatim>\<open>stack.pop()\<close> takes the head and \<^verbatim>\<open>stack.push\<close> conses. The array \<^verbatim>\<open>visited\<close>
  is shared with the caller and changed in place: the model returns it with the contour.
  A traced point \<^verbatim>\<open>{ x, y }\<close> is the pair \<open>(x, y)\<close> of integers.
\<close>

function traceLoop ::
  "optimizationSettings \<Rightarrow> nat list list \<Rightarrow> nat \<Rightarrow> nat \<Rightarrow> (int \<times> int) list
   \<Rightarrow> bool list list \<Rightarrow> (int \<times> int) list \<Rightarrow> (int \<times> int) list
   \<Rightarrow> (int \<times> int) list \<times> bool list list" where
  "traceLoop settings binaryMap width height dirs visited [] contour = (contour, visited)"
| "traceLoop settings binaryMap width height dirs visited ((x, y) # stack) contour =
     (if length contour < maxPoints settings then
        (if x < 0 \<or> x \<ge> int width \<or> y < 0 \<or> y \<ge> int height
            \<or> visited ! nat y ! nat x \<or> binaryMap ! nat y ! nat x = 0
         then traceLoop settings binaryMap width height dirs visited stack contour
         else
           let visited' = visited[nat y := (visited ! nat y)[nat x := True]];
               contour' = contour @ [(x, y)];
               stack' = fold (\<lambda>(dx, dy) stack.
                                let nx = x + dx; ny = y + dy
                                in if nx \<ge> 0 \<and> nx < int width \<and> ny \<ge> 0 \<and> ny < int height
                                      \<and> \<not> visited' ! nat ny ! nat nx
                                      \<and> binaryMap ! nat ny ! nat nx = 1
                                   then (nx, ny) # stack else stack)
                             dirs stack
           in traceLoop settings binaryMap width height dirs visited' stack' contour')
      else (contour, visited))"
  by pat_completeness auto
termination
  by (relation "measures [\<lambda>(settings, binaryMap, width, height, dirs, visited, stack, contour).
                            maxPoints settings - length contour,
                          \<lambda>(settings, binaryMap, width, height, dirs, visited, stack, contour).
                            length stack]")
     auto

definition traceContour ::
  "optimizationSettings \<Rightarrow> nat list list \<Rightarrow> bool list list \<Rightarrow> int \<Rightarrow> int \<Rightarrow> nat \<Rightarrow> nat
   \<Rightarrow> (int \<times> int) list \<Rightarrow> (int \<times> int) list \<times> bool list list" where
  "traceContour settings binaryMap visited startX startY width height dirs =
     traceLoop settings binaryMap width height dirs visited [(startX, startY)] []"

text \<open>
  \<^verbatim>\<open>findContours(binaryMap, width, height)\<close>: the scan over the rows 1 to
  \<^verbatim>\<open>height - 2\<close> and the columns 1 to \<^verbatim>\<open>width - 2\<close>, carrying the list of contours
  and the array \<^verbatim>\<open>visited\<close>, which starts all false.
\<close>

definition findContours ::
  "optimizationSettings \<Rightarrow> nat list list \<Rightarrow> nat \<Rightarrow> nat \<Rightarrow> (int \<times> int) list list" where
  "findContours settings binaryMap width height =
     fst (fold (\<lambda>y. fold (\<lambda>x (contours, visited).
                  if binaryMap ! y ! x = 1 \<and> \<not> visited ! y ! x then
                    let (contour, visited') =
                          traceContour settings binaryMap visited (int x) (int y)
                            width height directions
                    in (if length contour \<ge> minPathLength settings
                        then contours @ [contour] else contours, visited')
                  else (contours, visited))
                [1 ..< width - 1])
          [1 ..< height - 1]
          ([], replicate height (replicate width False)))"

subsection \<open>Curve building and extraction\<close>

text \<open>
  The path data is a string of commands \<^verbatim>\<open>M x y\<close>, \<^verbatim>\<open>Q cx cy x y\<close> and \<^verbatim>\<open>L x y\<close>;
  the model keeps the commands and their arguments and leaves the printing of numbers out.
\<close>

datatype pathCommand = MoveTo real real | QuadTo real real real real | LineTo real real

record bounds =
  bounds_x :: real
  bounds_y :: real
  bounds_width :: real
  bounds_height :: real

record svgPath =
  path_points :: "point list"
  path_pathData :: "pathCommand list"
  path_length :: real
  path_bounds :: bounds

definition generateSmoothPathData :: "point list \<Rightarrow> pathCommand list" where
  "generateSmoothPathData points =
     (if length points < 2 then []
      else
        let pathData = [MoveTo (px (points ! 0)) (py (points ! 0))] in
        if length points = 2 then pathData @ [LineTo (px (points ! 1)) (py (points ! 1))]
        else
          let pathData =
                fold (\<lambda>i pathData.
                        let current = points ! i;
                            next = points ! (i + 1);
                            controlX = px current;
                            controlY = py current;
                            endX = (px current + px next) / 2;
                            endY = (py current + py next) / 2
                        in pathData @ [QuadTo controlX controlY endX endY])
                     [1 ..< length points - 1] pathData;
              lastPoint = points ! (length points - 1)
          in pathData @ [LineTo (px lastPoint) (py lastPoint)])"

definition calculatePathLength :: "point list \<Rightarrow> real" where
  "calculatePathLength points =
     fold (\<lambda>i len.
             let dx = px (points ! i) - px (points ! (i - 1));
                 dy = py (points ! i) - py (points ! (i - 1))
             in len + sqrt (dx * dx + dy * dy))
          [1 ..< length points] 0"

definition calculateBounds :: "point list \<Rightarrow> bounds" where
  "calculateBounds points =
     (if length points = 0
      then \<lparr> bounds_x = 0, bounds_y = 0, bounds_width = 0, bounds_height = 0 \<rparr>
      else
        let (minX, maxX, minY, maxY) =
              fold (\<lambda>point (minX, maxX, minY, maxY).
                      (min minX (px point), max maxX (px point),
                       min minY (py point), max maxY (py point)))
                   points
                   (px (points ! 0), px (points ! 0), py (points ! 0), py (points ! 0))
        in \<lparr> bounds_x = minX, bounds_y = minY,
             bounds_width = maxX - minX, bounds_height = maxY - minY \<rparr>)"

text \<open>\<^verbatim>\<open>createSVGPath(points)\<close>; \<open>None\<close> is \<^verbatim>\<open>null\<close>.\<close>

definition createSVGPath :: "point list \<Rightarrow> svgPath option" where
  "createSVGPath points =
     (if length points < 2 then None
      else
        let pathData = generateSmoothPathData points
        in Some \<lparr> path_points = points, path_pathData = pathData,
                  path_length = calculatePathLength points,
                  path_bounds = calculateBounds points \<rparr>)"

text \<open>
  \<^verbatim>\<open>extractVectorPaths(imageData)\<close>. The final \<^verbatim>\<open>filter\<close> keeps the entries that are
  not \<^verbatim>\<open>null\<close> and have at least 3 points. The result is \<open>None\<close> when a call of
  \<open>simplifyPath\<close> does not return.
\<close>

definition toPoint :: "int \<times> int \<Rightarrow> point" where
  "toPoint c = \<lparr> px = real_of_int (fst c), py = real_of_int (snd c) \<rparr>"

definition extractVectorPaths :: "optimizationSettings \<Rightarrow> ImageData \<Rightarrow> svgPath option list option" where
  "extractVectorPaths settings imageData =
     (let width = img_width imageData;
          height = img_height imageData;
          data = img_data imageData;
          binaryMap = createBinaryMap data width height;
          contours = findContours settings binaryMap width height
      in Option.bind
           (those (map (\<lambda>contour.
                          let smoothedContour = smoothContour (map toPoint contour)
                          in map_option createSVGPath (simplifyPath settings smoothedContour))
                       contours))
           (\<lambda>vectorPaths.
              Some (filter (\<lambda>path. case path of None \<Rightarrow> False
                                    | Some p \<Rightarrow> length (path_points p) \<ge> 3)
                           vectorPaths)))"

subsection \<open>The visited map keeps the contours apart\<close>

text \<open>
  The set of pixels that \<^verbatim>\<open>visited\<close> marks, and the shape of the array: \<open>h\<close> rows of
  \<open>w\<close> entries.
\<close>

definition marked :: "bool list list \<Rightarrow> (int \<times> int) set" where
  "marked visited =
     {(x, y). 0 \<le> x \<and> 0 \<le> y \<and> nat y < length visited
              \<and> nat x < length (visited ! nat y) \<and> visited ! nat y ! nat x}"

definition shaped :: "bool list list \<Rightarrow> nat \<Rightarrow> nat \<Rightarrow> bool" where
  "shaped visited w h \<longleftrightarrow> length visited = h \<and> (\<forall>i < h. length (visited ! i) = w)"

lemma grid_update_length:
  "length (v[j := (v ! j)[i := b]] ! j') = length (v ! j')"
proof (cases "j < length v")
  case True
  then show ?thesis by (cases "j' = j") simp_all
next
  case False
  then have "v[j := (v ! j)[i := b]] = v" by (simp add: list_update_beyond)
  then show ?thesis by simp
qed

lemma grid_update_nth:
  assumes "j < length v" and "i < length (v ! j)" and "j' < length v" and "i' < length (v ! j')"
  shows "v[j := (v ! j)[i := b]] ! j' ! i' = (if j' = j \<and> i' = i then b else v ! j' ! i')"
proof (cases "j' = j")
  case True
  with assms show ?thesis by (simp add: nth_list_update)
next
  case False
  with assms show ?thesis by simp
qed

lemma shaped_update:
  assumes "shaped v w h"
  shows "shaped (v[j := (v ! j)[i := b]]) w h"
  using assms unfolding shaped_def by (simp add: grid_update_length)

lemma marked_update:
  assumes "shaped v w h" and "0 \<le> x" and "x < int w" and "0 \<le> y" and "y < int h"
  shows "marked (v[nat y := (v ! nat y)[nat x := True]]) = insert (x, y) (marked v)"
proof -
  let ?v = "v[nat y := (v ! nat y)[nat x := True]]"
  have ny: "nat y < length v" and nx: "nat x < length (v ! nat y)"
    using assms by (auto simp: shaped_def)
  have mem: "(a, b) \<in> marked ?v \<longleftrightarrow> (a, b) = (x, y) \<or> (a, b) \<in> marked v" for a b
  proof (cases "0 \<le> a \<and> 0 \<le> b \<and> nat b < length v \<and> nat a < length (v ! nat b)")
    case False
    moreover from False have "(a, b) \<noteq> (x, y)" using assms(2,4) ny nx by auto
    ultimately show ?thesis by (auto simp: marked_def grid_update_length)
  next
    case True
    then have cell: "?v ! nat b ! nat a
                     = (if nat b = nat y \<and> nat a = nat x then True else v ! nat b ! nat a)"
      using grid_update_nth [OF ny nx, of "nat b" "nat a" True] by simp
    have same: "(nat b = nat y \<and> nat a = nat x) \<longleftrightarrow> (a, b) = (x, y)"
      using True assms(2,4) by auto
    show ?thesis
      using True same by (auto simp: marked_def grid_update_length cell)
  qed
  show ?thesis
  proof (intro set_eqI)
    fix q :: "int \<times> int"
    obtain a b where "q = (a, b)" by (cases q)
    then show "q \<in> marked ?v \<longleftrightarrow> q \<in> insert (x, y) (marked v)"
      using mem [of a b] by simp
  qed
qed

lemma not_marked:
  assumes "shaped v w h" and "0 \<le> x" and "x < int w" and "0 \<le> y" and "y < int h"
    and "\<not> v ! nat y ! nat x"
  shows "(x, y) \<notin> marked v"
  using assms by (simp add: marked_def)

lemma traceLoop_inv:
  assumes "traceLoop st bm w h dirs v stack c = (c', v')"
    and "shaped v w h" and "distinct c" and "set c \<subseteq> marked v"
    and "set c \<inter> V0 = {}" and "V0 \<subseteq> marked v"
  shows "shaped v' w h \<and> distinct c' \<and> set c' \<subseteq> marked v' \<and> set c' \<inter> V0 = {} \<and> V0 \<subseteq> marked v'"
  using assms
proof (induction st bm w h dirs v stack c rule: traceLoop.induct)
  case (1 settings binaryMap width height dirs visited contour)
  then show ?case by simp
next
  case (2 settings binaryMap width height dirs visited x y stack contour)
  show ?case
  proof (cases "length contour < maxPoints settings")
    case False
    with "2.prems" show ?thesis by simp
  next
    case True
    show ?thesis
    proof (cases "x < 0 \<or> x \<ge> int width \<or> y < 0 \<or> y \<ge> int height
                  \<or> visited ! nat y ! nat x \<or> binaryMap ! nat y ! nat x = 0")
      case skip: True
      with True "2.prems"(1)
      have "traceLoop settings binaryMap width height dirs visited stack contour = (c', v')"
        by simp
      from "2.IH"(1) [OF True skip this "2.prems"(2-6)] show ?thesis .
    next
      case take: False
      then have rng: "0 \<le> x" "x < int width" "0 \<le> y" "y < int height"
        and unv: "\<not> visited ! nat y ! nat x" by auto
      let ?v = "visited[nat y := (visited ! nat y)[nat x := True]]"
      let ?c = "contour @ [(x, y)]"
      let ?s = "fold (\<lambda>(dx, dy) stack.
                        let nx = x + dx; ny = y + dy
                        in if nx \<ge> 0 \<and> nx < int width \<and> ny \<ge> 0 \<and> ny < int height
                              \<and> \<not> ?v ! nat ny ! nat nx \<and> binaryMap ! nat ny ! nat nx = 1
                           then (nx, ny) # stack else stack)
                     dirs stack"
      from take True "2.prems"(1)
      have run: "traceLoop settings binaryMap width height dirs ?v ?s ?c = (c', v')"
        by (simp add: Let_def)
      have new: "(x, y) \<notin> marked visited"
        using not_marked [OF "2.prems"(2) rng unv] .
      have mk: "marked ?v = insert (x, y) (marked visited)"
        using marked_update [OF "2.prems"(2) rng] .
      have a: "shaped ?v width height" using "2.prems"(2) by (rule shaped_update)
      have b: "distinct ?c" using "2.prems"(3,4) new by auto
      have c: "set ?c \<subseteq> marked ?v" using "2.prems"(4) mk by auto
      have d: "set ?c \<inter> V0 = {}" using "2.prems"(5,6) new by auto
      have e: "V0 \<subseteq> marked ?v" using "2.prems"(6) mk by auto
      from "2.IH"(2) [OF True take refl refl refl run a b c d e] show ?thesis .
    qed
  qed
qed

lemma fold_invariant:
  assumes "P s" and "\<And>x s. x \<in> set xs \<Longrightarrow> P s \<Longrightarrow> P (f x s)"
  shows "P (fold f xs s)"
  using assms by (induction xs arbitrary: s) auto

lemma distinct_concat_disjoint:
  assumes "distinct (concat cs)" and "i < j" and "j < length cs"
  shows "set (cs ! i) \<inter> set (cs ! j) = {}"
proof -
  have cs: "cs = take j cs @ cs ! j # drop (Suc j) cs"
    using assms(3) by (rule id_take_nth_drop)
  have "cs ! i \<in> set (take j cs)"
    using assms(2,3) by (auto simp: in_set_conv_nth intro!: exI [of _ i])
  then have "set (cs ! i) \<subseteq> set (concat (take j cs))" by auto
  moreover have "set (cs ! j) \<subseteq> set (concat (cs ! j # drop (Suc j) cs))" by simp
  moreover have "set (concat (take j cs)) \<inter> set (concat (cs ! j # drop (Suc j) cs)) = {}"
    using assms(1) by (subst (asm) cs) (simp only: concat_append distinct_append)
  ultimately show ?thesis by blast
qed

lemma findContours_distinct: "distinct (concat (findContours st bm w h))"
proof -
  define P :: "(int \<times> int) list list \<times> bool list list \<Rightarrow> bool" where
    "P = (\<lambda>(contours, visited). shaped visited w h \<and> distinct (concat contours)
                                  \<and> set (concat contours) \<subseteq> marked visited)"
  define step where
    "step = (\<lambda>y x (contours, visited).
                  if bm ! y ! x = 1 \<and> \<not> visited ! y ! x then
                    let (contour, visited') =
                          traceContour st bm visited (int x) (int y) w h directions
                    in (if length contour \<ge> minPathLength st
                        then contours @ [contour] else contours, visited')
                  else (contours, visited))"
  have init: "P ([], replicate h (replicate w False))"
    by (simp add: P_def shaped_def)
  have stepP: "P (step y x s)" if "P s" for x y s
  proof -
    obtain contours visited where s: "s = (contours, visited)" by (cases s)
    from that s have sh: "shaped visited w h" and di: "distinct (concat contours)"
      and su: "set (concat contours) \<subseteq> marked visited" by (simp_all add: P_def)
    show ?thesis
    proof (cases "bm ! y ! x = 1 \<and> \<not> visited ! y ! x")
      case False
      have "step y x (contours, visited) = (contours, visited)"
        unfolding step_def prod.case by (rule if_not_P [OF False])
      then show ?thesis using that by (simp add: s)
    next
      case True
      obtain c' v' where tr: "traceContour st bm visited (int x) (int y) w h directions = (c', v')"
        by (cases "traceContour st bm visited (int x) (int y) w h directions")
      then have "traceLoop st bm w h directions visited [(int x, int y)] [] = (c', v')"
        by (simp add: traceContour_def)
      from traceLoop_inv [OF this sh, of "marked visited"]
      have r: "shaped v' w h" "distinct c'" "set c' \<subseteq> marked v'"
        "set c' \<inter> marked visited = {}" "marked visited \<subseteq> marked v'"
        by simp_all
      have "distinct (concat (contours @ [c']))" using di r(2,4) su by auto
      moreover have "set (concat (contours @ [c'])) \<subseteq> marked v'" using su r(3,5) by auto
      moreover have "set (concat contours) \<subseteq> marked v'" using su r(5) by auto
      ultimately show ?thesis using True tr r(1) di
        by (simp add: step_def s P_def)
    qed
  qed
  have inner: "P (fold (step y) xs s)" if "P s" for y xs s
    using that by (rule fold_invariant [where P = P]) (rule stepP)
  have "P (fold (\<lambda>y. fold (step y) [1 ..< w - 1]) [1 ..< h - 1]
             ([], replicate h (replicate w False)))"
    using init by (rule fold_invariant [where P = P]) (rule inner)
  moreover have "findContours st bm w h
        = fst (fold (\<lambda>y. fold (step y) [1 ..< w - 1]) [1 ..< h - 1]
                 ([], replicate h (replicate w False)))"
    by (simp add: findContours_def step_def)
  ultimately show ?thesis by (simp add: P_def split: prod.splits)
qed

definition twoDots :: "nat list list" where
  "twoDots = [[0, 0, 0, 0, 0], [0, 1, 0, 1, 0], [0, 0, 0, 0, 0]]"

text \<open>
  C10. The contours that one call of \<open>findContours\<close> returns share no pixel: the list of
  all their points has no repetition, and any two of them are disjoint as sets.
\<close>

theorem findContours_disjoint:
  "distinct (concat (findContours st bm w h))
   \<and> (\<forall>i j. i < j \<and> j < length (findContours st bm w h) \<longrightarrow>
          set (findContours st bm w h ! i) \<inter> set (findContours st bm w h ! j) = {})"
  using findContours_distinct [of st bm w h] distinct_concat_disjoint
  by blast

theorem findContours_disjoint_witness:
  "findContours (defaultSettings\<lparr>minPathLength := 1\<rparr>) twoDots 5 3 = [[(1, 1)], [(3, 1)]]
   \<and> set (findContours (defaultSettings\<lparr>minPathLength := 1\<rparr>) twoDots 5 3 ! 0)
       \<inter> set (findContours (defaultSettings\<lparr>minPathLength := 1\<rparr>) twoDots 5 3 ! 1) = {}"
proof -
  have ev: "findContours (defaultSettings\<lparr>minPathLength := 1\<rparr>) twoDots 5 3
            = [[(1, 1)], [(3, 1)]]"
    by code_simp
  then have "(0::nat) < 1 \<and> 1 < length (findContours (defaultSettings\<lparr>minPathLength := 1\<rparr>) twoDots 5 3)"
    by simp
  with findContours_disjoint [of "defaultSettings\<lparr>minPathLength := 1\<rparr>" twoDots 5 3]
  have "set (findContours (defaultSettings\<lparr>minPathLength := 1\<rparr>) twoDots 5 3 ! 0)
       \<inter> set (findContours (defaultSettings\<lparr>minPathLength := 1\<rparr>) twoDots 5 3 ! 1) = {}"
    by blast
  with ev show ?thesis by blast
qed

subsection \<open>The extractor returns paths of at least 3 points\<close>

lemma those_map_total:
  assumes "\<forall>x \<in> set xs. \<exists>y. f x = Some y"
  shows "\<exists>ys. those (map f xs) = Some ys"
  using assms by (induction xs) auto

lemma simplifyPath_total:
  assumes "nonnegative (simplifyTolerance st)"
  shows "\<exists>r. simplifyPath st p = Some r"
  using douglasPeucker_main [OF assms, of p] by (auto simp: simplifyPath_def)

text \<open>
  Buffers for examples are given by their grey values, one per pixel in row-major order:
  every pixel is opaque and has the value on its three colour channels.
\<close>

definition opaqueGray :: "nat list \<Rightarrow> nat list" where
  "opaqueGray vs = concat (map (\<lambda>v. [v, v, v, 255]) vs)"

lemma opaqueGray_length: "length (opaqueGray vs) = length vs * 4"
  by (induction vs) (simp_all add: opaqueGray_def)

lemma opaqueGray_red: "j < length vs \<Longrightarrow> opaqueGray vs ! (j * 4) = vs ! j"
proof (induction vs arbitrary: j)
  case Nil
  then show ?case by simp
next
  case (Cons v vs)
  show ?case
  proof (cases j)
    case 0
    then show ?thesis by (simp add: opaqueGray_def)
  next
    case (Suc k)
    with Cons.prems have "k < length vs" by simp
    from Cons.IH [OF this] show ?thesis by (simp add: Suc opaqueGray_def)
  qed
qed

lemma opaqueGray_bound: "\<forall>v \<in> set vs. v \<le> 255 \<Longrightarrow> \<forall>v \<in> set (opaqueGray vs). v \<le> 255"
  by (induction vs) (simp_all add: opaqueGray_def)

text \<open>
  To run \<open>douglasPeucker\<close> on given points, the distances are compared by their squares:
  \<open>sqDistance\<close> is \<open>perpendicularDistance\<close> without the final square root, and
  \<open>farthestSq\<close> is the loop of \<open>farthest\<close> over it.
\<close>

definition sqDistance :: "point \<Rightarrow> point \<Rightarrow> point \<Rightarrow> real" where
  "sqDistance point lineStart lineEnd =
     (let A = px point - px lineStart;
          B = py point - py lineStart;
          C = px lineEnd - px lineStart;
          D = py lineEnd - py lineStart;
          dot = A * C + B * D;
          lenSq = C * C + D * D
      in if lenSq = 0 then A * A + B * B
         else
           let param = dot / lenSq;
               (xx, yy) = (if param < 0 then (px lineStart, py lineStart)
                           else if param > 1 then (px lineEnd, py lineEnd)
                           else (px lineStart + param * C, py lineStart + param * D));
               dx = px point - xx;
               dy = py point - yy
           in dx * dx + dy * dy)"

definition farthestSq :: "point list \<Rightarrow> real \<times> nat" where
  "farthestSq points =
     (let endIndex = length points - 1 in
      fold (\<lambda>i (maxSq, maxIndex).
              let sq = sqDistance (points ! i) (points ! 0) (points ! endIndex)
              in if sq > maxSq then (sq, i) else (maxSq, maxIndex))
           [1 ..< endIndex] (0, 0))"

lemma perpendicularDistance_sqrt:
  "perpendicularDistance p a b = sqrt (sqDistance p a b)"
  by (simp add: perpendicularDistance_def sqDistance_def Let_def)

lemma farthest_sqrt_fold:
  "fold (\<lambda>i (maxDistance, maxIndex).
           if sqrt (q i) > maxDistance then (sqrt (q i), i) else (maxDistance, maxIndex)) js (sqrt m0, k0)
   = (case fold (\<lambda>i (maxSq, maxIndex).
                   if q i > maxSq then (q i, i) else (maxSq, maxIndex)) js (m0, k0)
      of (m, k) \<Rightarrow> (sqrt m, k))"
  by (induction js arbitrary: m0 k0) simp_all

lemma farthest_farthestSq:
  "farthest points = (sqrt (fst (farthestSq points)), snd (farthestSq points))"
proof -
  let ?q = "\<lambda>i. sqDistance (points ! i) (points ! 0) (points ! (length points - 1))"
  have "farthest points
        = fold (\<lambda>i (maxDistance, maxIndex).
                  if sqrt (?q i) > maxDistance then (sqrt (?q i), i) else (maxDistance, maxIndex))
               [1 ..< length points - 1] (sqrt 0, 0)"
    unfolding farthest_def Let_def perpendicularDistance_sqrt real_sqrt_zero by (rule refl)
  also have "\<dots> = (case farthestSq points of (m, k) \<Rightarrow> (sqrt m, k))"
    unfolding farthest_sqrt_fold farthestSq_def Let_def by (rule refl)
  finally show ?thesis by (simp add: split_beta)
qed

lemma sqrt_exceeds_2: "exceeds (sqrt m) (Tol 2) \<longleftrightarrow> 4 < m"
proof -
  have "sqrt m > 2 \<longleftrightarrow> sqrt m > sqrt 4" by simp
  also have "\<dots> \<longleftrightarrow> m > 4" by (rule real_sqrt_less_iff)
  finally show ?thesis by simp
qed

lemma douglasPeucker_collapse:
  assumes "2 < length points" and "farthestSq points = (m, k)" and "m \<le> 4"
  shows "douglasPeucker points (Tol 2) = Some [points ! 0, points ! (length points - 1)]"
  using assms
  by (subst douglasPeucker.simps) (simp add: farthest_farthestSq sqrt_exceeds_2 del: exceeds.simps)

lemma douglasPeucker_split:
  assumes "2 < length points" and "farthestSq points = (m, k)" and "4 < m"
    and "douglasPeucker (take (k + 1) points) (Tol 2) = Some left"
    and "douglasPeucker (drop k points) (Tol 2) = Some right"
  shows "douglasPeucker points (Tol 2) = Some (butlast left @ right)"
  using assms
  by (subst douglasPeucker.simps) (simp add: farthest_farthestSq sqrt_exceeds_2 del: exceeds.simps)

text \<open>
  A 7 by 4 buffer with a block of 5 by 2 ink pixels: the block is traced as one contour of
  10 points, which the smoothing and the simplification (tolerance 2) turn into 3 points.
\<close>

definition block52 :: ImageData where
  "block52 = \<lparr> img_width = 7, img_height = 4,
               img_data = opaqueGray [255, 255, 255, 255, 255, 255, 255,
                                      255, 0, 0, 0, 0, 0, 255,
                                      255, 0, 0, 0, 0, 0, 255,
                                      255, 255, 255, 255, 255, 255, 255] \<rparr>"

definition contour52 :: "(int \<times> int) list" where
  "contour52 = [(1, 1), (2, 2), (3, 2), (4, 2), (5, 2), (5, 1), (4, 1), (3, 1), (2, 1), (1, 2)]"

definition smooth52 :: "point list" where
  "smooth52 = [\<lparr>px = 4 / 3, py = 5 / 3\<rparr>, \<lparr>px = 2, py = 5 / 3\<rparr>, \<lparr>px = 3, py = 2\<rparr>,
               \<lparr>px = 4, py = 2\<rparr>, \<lparr>px = 14 / 3, py = 5 / 3\<rparr>, \<lparr>px = 14 / 3, py = 4 / 3\<rparr>,
               \<lparr>px = 4, py = 1\<rparr>, \<lparr>px = 3, py = 1\<rparr>, \<lparr>px = 2, py = 4 / 3\<rparr>,
               \<lparr>px = 4 / 3, py = 4 / 3\<rparr>]"

definition triangle52 :: "point list" where
  "triangle52 = [\<lparr>px = 4 / 3, py = 5 / 3\<rparr>, \<lparr>px = 14 / 3, py = 5 / 3\<rparr>, \<lparr>px = 4 / 3, py = 4 / 3\<rparr>]"

lemma block52_contours:
  "findContours defaultSettings (createBinaryMap (img_data block52) 7 4) 7 4 = [contour52]"
  by code_simp

lemma block52_smoothed: "smoothContour (map toPoint contour52) = smooth52"
  by code_simp

lemma block52_farthest: "farthestSq smooth52 = (100 / 9, 4)"
  by code_simp

lemma block52_farthest_left: "farthestSq (take 5 smooth52) = (1 / 9, 2)"
  by code_simp

lemma block52_farthest_right: "farthestSq (drop 4 smooth52) = (36 / 101, 2)"
  by code_simp

lemma block52_simplified: "simplifyPath defaultSettings smooth52 = Some triangle52"
proof -
  have l: "douglasPeucker (take (4 + 1) smooth52) (Tol 2)
           = Some [\<lparr>px = 4 / 3, py = 5 / 3\<rparr>, \<lparr>px = 14 / 3, py = 5 / 3\<rparr>]"
    using douglasPeucker_collapse [OF _ block52_farthest_left] by (simp add: smooth52_def)
  have r: "douglasPeucker (drop 4 smooth52) (Tol 2)
           = Some [\<lparr>px = 14 / 3, py = 5 / 3\<rparr>, \<lparr>px = 4 / 3, py = 4 / 3\<rparr>]"
    using douglasPeucker_collapse [OF _ block52_farthest_right] by (simp add: smooth52_def)
  have "douglasPeucker smooth52 (Tol 2) = Some triangle52"
    using douglasPeucker_split [OF _ block52_farthest _ l r]
    by (simp add: smooth52_def triangle52_def)
  then show ?thesis
    by (simp add: simplifyPath_def defaultSettings_def smooth52_def)
qed

lemma block52_extracted:
  "extractVectorPaths defaultSettings block52
   = Some (filter (\<lambda>path. case path of None \<Rightarrow> False | Some p \<Rightarrow> length (path_points p) \<ge> 3)
             [createSVGPath triangle52])"
  using block52_contours block52_smoothed block52_simplified
  by (simp add: extractVectorPaths_def Let_def block52_def)

text \<open>
  A 5 by 6 buffer with a block of 3 by 4 ink pixels: its contour of 12 points is simplified
  to the 2 points of a chord, for which a path object is built and then filtered out.
\<close>

definition block34 :: ImageData where
  "block34 = \<lparr> img_width = 5, img_height = 6,
               img_data = opaqueGray [255, 255, 255, 255, 255,
                                      255, 0, 0, 0, 255,
                                      255, 0, 0, 0, 255,
                                      255, 0, 0, 0, 255,
                                      255, 0, 0, 0, 255,
                                      255, 255, 255, 255, 255] \<rparr>"

definition contour34 :: "(int \<times> int) list" where
  "contour34 = [(1, 1), (2, 2), (3, 3), (3, 4), (2, 4), (2, 3), (3, 2), (3, 1), (2, 1), (1, 2),
                (1, 3), (1, 4)]"

definition smooth34 :: "point list" where
  "smooth34 = [\<lparr>px = 4 / 3, py = 7 / 3\<rparr>, \<lparr>px = 2, py = 2\<rparr>, \<lparr>px = 8 / 3, py = 3\<rparr>,
               \<lparr>px = 8 / 3, py = 11 / 3\<rparr>, \<lparr>px = 7 / 3, py = 11 / 3\<rparr>, \<lparr>px = 7 / 3, py = 3\<rparr>,
               \<lparr>px = 8 / 3, py = 2\<rparr>, \<lparr>px = 8 / 3, py = 4 / 3\<rparr>, \<lparr>px = 2, py = 4 / 3\<rparr>,
               \<lparr>px = 4 / 3, py = 2\<rparr>, \<lparr>px = 1, py = 3\<rparr>, \<lparr>px = 1, py = 8 / 3\<rparr>]"

definition chord34 :: "point list" where
  "chord34 = [\<lparr>px = 4 / 3, py = 7 / 3\<rparr>, \<lparr>px = 1, py = 8 / 3\<rparr>]"

lemma block34_contours:
  "findContours defaultSettings (createBinaryMap (img_data block34) 5 6) 5 6 = [contour34]"
  by code_simp

lemma block34_smoothed: "smoothContour (map toPoint contour34) = smooth34"
  by code_simp

lemma block34_farthest: "farthestSq smooth34 = (32 / 9, 3)"
  by code_simp

lemma block34_simplified: "simplifyPath defaultSettings smooth34 = Some chord34"
proof -
  have "douglasPeucker smooth34 (Tol 2) = Some chord34"
    using douglasPeucker_collapse [OF _ block34_farthest] by (simp add: smooth34_def chord34_def)
  then show ?thesis
    by (simp add: simplifyPath_def defaultSettings_def smooth34_def)
qed

lemma block34_extracted:
  "extractVectorPaths defaultSettings block34
   = Some (filter (\<lambda>path. case path of None \<Rightarrow> False | Some p \<Rightarrow> length (path_points p) \<ge> 3)
             [createSVGPath chord34])"
  using block34_contours block34_smoothed block34_simplified
  by (simp add: extractVectorPaths_def Let_def block34_def)

text \<open>
  C9. For a tolerance that is not negative the extractor returns, and every entry of its
  result is a path object (not \<^verbatim>\<open>null\<close>) with at least 3 points, although the curve
  builder itself accepts 2 points and then emits a move and a straight segment.
\<close>

theorem extractVectorPaths_min_points:
  "(nonnegative (simplifyTolerance st) \<longrightarrow>
      (\<exists>paths. extractVectorPaths st img = Some paths
         \<and> (\<forall>path \<in> set paths. \<exists>p. path = Some p \<and> 3 \<le> length (path_points p))))
   \<and> (\<exists>p. createSVGPath [a, b] = Some p \<and> path_points p = [a, b]
          \<and> path_pathData p = [MoveTo (px a) (py a), LineTo (px b) (py b)])"
proof (intro conjI impI)
  assume tol: "nonnegative (simplifyTolerance st)"
  let ?f = "\<lambda>contour. let smoothedContour = smoothContour (map toPoint contour)
                       in map_option createSVGPath (simplifyPath st smoothedContour)"
  let ?cs = "findContours st (createBinaryMap (img_data img) (img_width img) (img_height img))
               (img_width img) (img_height img)"
  have "\<forall>c \<in> set ?cs. \<exists>y. ?f c = Some y"
    using simplifyPath_total [OF tol] by (simp add: Let_def)
  from those_map_total [OF this] obtain vs where vs: "those (map ?f ?cs) = Some vs" by blast
  let ?keep = "\<lambda>path. case path of None \<Rightarrow> False | Some p \<Rightarrow> length (path_points p) \<ge> 3"
  have res: "extractVectorPaths st img = Some (filter ?keep vs)"
    using vs by (simp add: extractVectorPaths_def Let_def)
  have "\<forall>path \<in> set (filter ?keep vs). \<exists>p. path = Some p \<and> 3 \<le> length (path_points p)"
    by (auto split: option.splits)
  with res show "\<exists>paths. extractVectorPaths st img = Some paths
         \<and> (\<forall>path \<in> set paths. \<exists>p. path = Some p \<and> 3 \<le> length (path_points p))"
    by blast
next
  show "\<exists>p. createSVGPath [a, b] = Some p \<and> path_points p = [a, b]
          \<and> path_pathData p = [MoveTo (px a) (py a), LineTo (px b) (py b)]"
    by (simp add: createSVGPath_def generateSmoothPathData_def Let_def)
qed

theorem extractVectorPaths_min_points_witness:
  "nonnegative (simplifyTolerance defaultSettings)
   \<and> findContours defaultSettings (createBinaryMap (img_data block52) 7 4) 7 4 = [contour52]
   \<and> (\<exists>p. extractVectorPaths defaultSettings block52 = Some [Some p]
          \<and> path_points p = [\<lparr>px = 4 / 3, py = 5 / 3\<rparr>, \<lparr>px = 14 / 3, py = 5 / 3\<rparr>,
                              \<lparr>px = 4 / 3, py = 4 / 3\<rparr>]
          \<and> 3 \<le> length (path_points p))
   \<and> findContours defaultSettings (createBinaryMap (img_data block34) 5 6) 5 6 = [contour34]
   \<and> simplifyPath defaultSettings (smoothContour (map toPoint contour34))
       = Some [\<lparr>px = 4 / 3, py = 7 / 3\<rparr>, \<lparr>px = 1, py = 8 / 3\<rparr>]
   \<and> (\<exists>p. createSVGPath [\<lparr>px = 4 / 3, py = 7 / 3\<rparr>, \<lparr>px = 1, py = 8 / 3\<rparr>] = Some p
          \<and> path_points p = [\<lparr>px = 4 / 3, py = 7 / 3\<rparr>, \<lparr>px = 1, py = 8 / 3\<rparr>]
          \<and> path_pathData p = [MoveTo (4 / 3) (7 / 3), LineTo 1 (8 / 3)])
   \<and> extractVectorPaths defaultSettings block34 = Some []"
proof -
  let ?a = "\<lparr>px = 4 / 3, py = 7 / 3\<rparr>" and ?b = "\<lparr>px = 1, py = 8 / 3\<rparr>"
  have tol: "nonnegative (simplifyTolerance defaultSettings)" by (simp add: defaultSettings_def)
  from extractVectorPaths_min_points [of defaultSettings block52 ?a ?b] tol
  obtain paths q where paths: "extractVectorPaths defaultSettings block52 = Some paths"
    and all: "\<forall>path \<in> set paths. \<exists>p. path = Some p \<and> 3 \<le> length (path_points p)"
    and q: "createSVGPath [?a, ?b] = Some q" "path_points q = [?a, ?b]"
           "path_pathData q = [MoveTo (px ?a) (py ?a), LineTo (px ?b) (py ?b)]"
    by blast
  obtain p where p: "createSVGPath triangle52 = Some p" "path_points p = triangle52"
    by (simp add: createSVGPath_def Let_def triangle52_def)
  with block52_extracted paths have ps: "paths = [Some p]" by (simp add: triangle52_def)
  with all have three: "3 \<le> length (path_points p)" by simp
  have pts: "path_points p = [\<lparr>px = 4 / 3, py = 5 / 3\<rparr>, \<lparr>px = 14 / 3, py = 5 / 3\<rparr>,
                              \<lparr>px = 4 / 3, py = 4 / 3\<rparr>]"
    using p(2) by (simp add: triangle52_def)
  have simp34: "simplifyPath defaultSettings (smoothContour (map toPoint contour34)) = Some [?a, ?b]"
    using block34_simplified by (simp add: block34_smoothed chord34_def)
  have none34: "extractVectorPaths defaultSettings block34 = Some []"
    using block34_extracted q by (simp add: chord34_def)
  from tol block52_contours paths ps pts three block34_contours simp34 q none34
  show ?thesis by simp
qed

subsection \<open>Tracing a blank buffer and a single pixel\<close>

text \<open>The body of the two scanning loops of \<open>findContours\<close>, named for the proofs.\<close>

definition scanStep ::
  "optimizationSettings \<Rightarrow> nat list list \<Rightarrow> nat \<Rightarrow> nat \<Rightarrow> nat \<Rightarrow> nat
   \<Rightarrow> (int \<times> int) list list \<times> bool list list \<Rightarrow> (int \<times> int) list list \<times> bool list list" where
  "scanStep st bm w h y =
     (\<lambda>x (contours, visited).
        if bm ! y ! x = 1 \<and> \<not> visited ! y ! x then
          let (contour, visited') = traceContour st bm visited (int x) (int y) w h directions
          in (if length contour \<ge> minPathLength st then contours @ [contour] else contours,
              visited')
        else (contours, visited))"

lemma findContours_scan:
  "findContours st bm w h
   = fst (fold (\<lambda>y. fold (scanStep st bm w h y) [1 ..< w - 1]) [1 ..< h - 1]
            ([], replicate h (replicate w False)))"
  by (simp add: findContours_def scanStep_def)

lemma fold_idle:
  assumes "\<And>x. x \<in> set xs \<Longrightarrow> f x s = s"
  shows "fold f xs s = s"
  using assms by (induction xs) auto

lemma fold_once:
  assumes "distinct xs" and "\<And>x s. x \<in> set xs \<Longrightarrow> x \<noteq> a \<Longrightarrow> f x s = s"
  shows "fold f xs s = (if a \<in> set xs then f a s else s)"
  using assms
proof (induction xs arbitrary: s)
  case Nil
  then show ?case by simp
next
  case (Cons x xs)
  show ?case
  proof (cases "x = a")
    case True
    with Cons.prems have "\<And>z. z \<in> set xs \<Longrightarrow> f z (f a s) = f a s" by auto
    then have "fold f xs (f a s) = f a s" by (rule fold_idle)
    with True show ?thesis by simp
  next
    case False
    with Cons.prems have "f x s = s" by simp
    moreover from Cons.prems have "fold f xs s = (if a \<in> set xs then f a s else s)"
      by (intro Cons.IH) auto
    ultimately show ?thesis using False by simp
  qed
qed

lemma createBinaryMap_nth:
  assumes "y < h" and "x < w"
  shows "createBinaryMap data w h ! y ! x = (if data ! ((y * w + x) * 4) < 128 then 1 else 0)"
  using assms by (simp add: createBinaryMap_def Let_def)

lemma scanStep_background: "bm ! y ! x = 0 \<Longrightarrow> scanStep st bm w h y x s = s"
  by (cases s) (simp add: scanStep_def)

lemma findContours_background:
  assumes "\<forall>y < h. \<forall>x < w. bm ! y ! x = 0"
  shows "findContours st bm w h = []"
proof -
  have row: "fold (scanStep st bm w h y) [1 ..< w - 1] s = s" if "y \<in> set [1 ..< h - 1]" for y s
  proof (rule fold_idle)
    fix x assume "x \<in> set [1 ..< w - 1]"
    with that have "y < h" and "x < w" by auto
    with assms have "bm ! y ! x = 0" by blast
    then show "scanStep st bm w h y x s = s" by (rule scanStep_background)
  qed
  have "fold (\<lambda>y. fold (scanStep st bm w h y) [1 ..< w - 1]) [1 ..< h - 1]
          ([], replicate h (replicate w False)) = ([], replicate h (replicate w False))"
    by (rule fold_idle) (rule row)
  then show ?thesis by (simp add: findContours_scan)
qed

lemma directions_nonzero: "d \<in> set directions \<Longrightarrow> d \<noteq> (0, 0)"
  by (auto simp: directions_def)

lemma traceLoop_take:
  assumes "length contour < maxPoints st" and "0 \<le> x" and "x < int w" and "0 \<le> y"
    and "y < int h" and "\<not> visited ! nat y ! nat x" and "bm ! nat y ! nat x \<noteq> 0"
  shows "traceLoop st bm w h dirs visited ((x, y) # stack) contour
         = traceLoop st bm w h dirs (visited[nat y := (visited ! nat y)[nat x := True]])
             (fold (\<lambda>(dx, dy) stack.
                      let nx = x + dx; ny = y + dy
                      in if nx \<ge> 0 \<and> nx < int w \<and> ny \<ge> 0 \<and> ny < int h
                            \<and> \<not> (visited[nat y := (visited ! nat y)[nat x := True]]) ! nat ny ! nat nx
                            \<and> bm ! nat ny ! nat nx = 1
                         then (nx, ny) # stack else stack)
                   dirs stack)
             (contour @ [(x, y)])"
  using assms by (simp add: Let_def)

lemma traceContour_single:
  assumes bm: "\<forall>y < h. \<forall>x < w. bm ! y ! x = (if x = x0 \<and> y = y0 then 1 else 0)"
    and x0: "x0 < w" and y0: "y0 < h" and cap: "0 < maxPoints st"
  shows "traceContour st bm (replicate h (replicate w False)) (int x0) (int y0) w h directions
         = ([(int x0, int y0)],
            (replicate h (replicate w False))[y0 := (replicate w False)[x0 := True]])"
proof -
  let ?init = "replicate h (replicate w False)"
  let ?v = "?init[nat (int y0) := (?init ! nat (int y0))[nat (int x0) := True]]"
  let ?push = "\<lambda>(dx, dy) stack.
                      let nx = int x0 + dx; ny = int y0 + dy
                      in if nx \<ge> 0 \<and> nx < int w \<and> ny \<ge> 0 \<and> ny < int h
                            \<and> \<not> ?v ! nat ny ! nat nx
                            \<and> bm ! nat ny ! nat nx = 1
                         then (nx, ny) # stack else stack"
  have off: "bm ! nat ny ! nat nx \<noteq> 1"
    if "0 \<le> nx" "nx < int w" "0 \<le> ny" "ny < int h" "(nx, ny) \<noteq> (int x0, int y0)" for nx ny
  proof -
    have "nat ny < h" "nat nx < w" using that by auto
    with bm have "bm ! nat ny ! nat nx = (if nat nx = x0 \<and> nat ny = y0 then 1 else 0)" by simp
    moreover have "\<not> (nat nx = x0 \<and> nat ny = y0)" using that by auto
    ultimately show ?thesis by simp
  qed
  have idle: "?push d [] = []" if "d \<in> set directions" for d
  proof -
    obtain dx dy where d: "d = (dx, dy)" by (cases d)
    with that directions_nonzero have "(int x0 + dx, int y0 + dy) \<noteq> (int x0, int y0)" by auto
    with off [of "int x0 + dx" "int y0 + dy"] show ?thesis by (auto simp: d Let_def)
  qed
  have push: "fold ?push directions [] = []" by (rule fold_idle) (rule idle)
  have "traceLoop st bm w h directions ?init [(int x0, int y0)] []
        = traceLoop st bm w h directions ?v (fold ?push directions []) ([] @ [(int x0, int y0)])"
    using bm x0 y0 cap by (intro traceLoop_take) simp_all
  also have "\<dots> = traceLoop st bm w h directions ?v [] [(int x0, int y0)]"
    by (simp only: push append_Nil)
  also have "\<dots> = ([(int x0, int y0)], ?v)" by simp
  finally show ?thesis using x0 y0 by (simp add: traceContour_def)
qed

lemma findContours_single:
  assumes bm: "\<forall>y < h. \<forall>x < w. bm ! y ! x = (if x = x0 \<and> y = y0 then 1 else 0)"
    and x0: "x0 < w" and y0: "y0 < h" and cap: "0 < maxPoints st"
  shows "findContours st bm w h
         = (if 1 \<le> x0 \<and> x0 < w - 1 \<and> 1 \<le> y0 \<and> y0 < h - 1 \<and> minPathLength st \<le> 1
            then [[(int x0, int y0)]] else [])"
proof -
  let ?init = "([], replicate h (replicate w False))"
  let ?xs = "[1 ..< w - 1]" and ?ys = "[1 ..< h - 1]"
  have cell: "scanStep st bm w h y x s = s"
    if "y \<in> set ?ys" "x \<in> set ?xs" "(x, y) \<noteq> (x0, y0)" for x y s
  proof -
    from that have "y < h" and "x < w" by auto
    with bm have "bm ! y ! x = (if x = x0 \<and> y = y0 then 1 else 0)" by blast
    with that(3) have "bm ! y ! x = 0" by auto
    then show ?thesis by (rule scanStep_background)
  qed
  have other: "fold (scanStep st bm w h y) ?xs s = s" if "y \<in> set ?ys" "y \<noteq> y0" for y s
    using that by (intro fold_idle cell) auto
  have row: "fold (scanStep st bm w h y0) ?xs s
             = (if x0 \<in> set ?xs then scanStep st bm w h y0 x0 s else s)"
    if "y0 \<in> set ?ys" for s
    using that by (intro fold_once cell) auto
  have scan: "fold (\<lambda>y. fold (scanStep st bm w h y) ?xs) ?ys ?init
              = (if y0 \<in> set ?ys then fold (scanStep st bm w h y0) ?xs ?init else ?init)"
  proof (rule fold_once)
    show "distinct ?ys" by simp
  next
    fix y s assume "y \<in> set ?ys" and "y \<noteq> y0"
    then show "fold (scanStep st bm w h y) ?xs s = s" by (rule other)
  qed
  have seed: "scanStep st bm w h y0 x0 ?init
              = (if minPathLength st \<le> 1 then [[(int x0, int y0)]] else [],
                 (replicate h (replicate w False))[y0 := (replicate w False)[x0 := True]])"
    using bm x0 y0 traceContour_single [OF bm x0 y0 cap] by (simp add: scanStep_def)
  have res: "fold (\<lambda>y. fold (scanStep st bm w h y) ?xs) ?ys ?init
             = (if y0 \<in> set ?ys \<and> x0 \<in> set ?xs then scanStep st bm w h y0 x0 ?init else ?init)"
  proof (cases "y0 \<in> set ?ys")
    case True
    from row [OF True, of ?init] True show ?thesis unfolding scan by auto
  next
    case False
    then show ?thesis unfolding scan by auto
  qed
  show ?thesis
    unfolding findContours_scan res seed by auto
qed

definition blank3 :: "nat list" where
  "blank3 = replicate 36 255"

definition dot3 :: "nat list" where
  "dot3 = (replicate 36 255)[16 := 0, 17 := 0, 18 := 0]"

text \<open>
  C6. The tracer is \<open>createBinaryMap\<close> followed by \<open>findContours\<close>. On a buffer with no
  ink it returns no contour. On a buffer whose only ink is one pixel it returns the one
  contour made of that pixel when the pixel is off the outer ring and the minimum path
  length is at most 1, and no contour otherwise: never more than one region. The cap
  \<open>maxPoints\<close> is positive, as it is in the generator.
\<close>

theorem regionTracer_blank_and_single:
  "(length data = 4 * w * h \<and> (\<forall>y < h. \<forall>x < w. 128 \<le> data ! ((y * w + x) * 4))
      \<longrightarrow> findContours st (createBinaryMap data w h) w h = [])
   \<and> (length data = 4 * w * h \<and> ix < w \<and> iy < h \<and> data ! ((iy * w + ix) * 4) < 128
        \<and> (\<forall>y < h. \<forall>x < w. (x, y) \<noteq> (ix, iy) \<longrightarrow> 128 \<le> data ! ((y * w + x) * 4))
        \<and> 0 < maxPoints st
      \<longrightarrow> findContours st (createBinaryMap data w h) w h
            = (if 1 \<le> ix \<and> ix < w - 1 \<and> 1 \<le> iy \<and> iy < h - 1 \<and> minPathLength st \<le> 1
               then [[(int ix, int iy)]] else []))"
proof (intro conjI impI)
  assume a: "length data = 4 * w * h \<and> (\<forall>y < h. \<forall>x < w. 128 \<le> data ! ((y * w + x) * 4))"
  have "\<forall>y < h. \<forall>x < w. createBinaryMap data w h ! y ! x = 0"
  proof (intro allI impI)
    fix y x assume "y < h" and "x < w"
    moreover with a have "128 \<le> data ! ((y * w + x) * 4)" by blast
    ultimately show "createBinaryMap data w h ! y ! x = 0"
      by (simp add: createBinaryMap_nth del: distrib_right_numeral)
  qed
  then show "findContours st (createBinaryMap data w h) w h = []"
    by (rule findContours_background)
next
  assume a: "length data = 4 * w * h \<and> ix < w \<and> iy < h \<and> data ! ((iy * w + ix) * 4) < 128
        \<and> (\<forall>y < h. \<forall>x < w. (x, y) \<noteq> (ix, iy) \<longrightarrow> 128 \<le> data ! ((y * w + x) * 4))
        \<and> 0 < maxPoints st"
  have "\<forall>y < h. \<forall>x < w. createBinaryMap data w h ! y ! x = (if x = ix \<and> y = iy then 1 else 0)"
  proof (intro allI impI)
    fix y x assume yx: "y < h" "x < w"
    show "createBinaryMap data w h ! y ! x = (if x = ix \<and> y = iy then 1 else 0)"
    proof (cases "(x, y) = (ix, iy)")
      case True
      with a yx show ?thesis by (simp add: createBinaryMap_nth del: distrib_right_numeral)
    next
      case False
      with a yx have "128 \<le> data ! ((y * w + x) * 4)" by blast
      with False yx show ?thesis
        by (auto simp add: createBinaryMap_nth simp del: distrib_right_numeral)
    qed
  qed
  with a show "findContours st (createBinaryMap data w h) w h
            = (if 1 \<le> ix \<and> ix < w - 1 \<and> 1 \<le> iy \<and> iy < h - 1 \<and> minPathLength st \<le> 1
               then [[(int ix, int iy)]] else [])"
    by (intro findContours_single) simp_all
qed

theorem regionTracer_blank_and_single_witness:
  "findContours defaultSettings (createBinaryMap blank3 3 3) 3 3 = []
   \<and> findContours (defaultSettings\<lparr>minPathLength := 1\<rparr>) (createBinaryMap dot3 3 3) 3 3 = [[(1, 1)]]
   \<and> findContours defaultSettings (createBinaryMap dot3 3 3) 3 3 = []"
proof -
  have cases3: "n = 0 \<or> n = 1 \<or> n = 2" if "n < 3" for n :: nat using that by auto
  have blank: "length blank3 = 4 * 3 * 3 \<and> (\<forall>y < 3. \<forall>x < 3. 128 \<le> blank3 ! ((y * 3 + x) * 4))"
    by (simp add: blank3_def)
  have dot: "length dot3 = 4 * 3 * 3 \<and> (1::nat) < 3 \<and> (1::nat) < 3 \<and> dot3 ! ((1 * 3 + 1) * 4) < 128
        \<and> (\<forall>y < 3. \<forall>x < 3. (x, y) \<noteq> (1, 1) \<longrightarrow> 128 \<le> dot3 ! ((y * 3 + x) * 4))"
  proof (intro conjI allI impI)
    fix y x :: nat assume "y < 3" and "x < 3" and "(x, y) \<noteq> (1, 1)"
    with cases3 [of x] cases3 [of y] show "128 \<le> dot3 ! ((y * 3 + x) * 4)"
      by (auto simp: dot3_def)
  qed (simp_all add: dot3_def)
  have cap: "0 < maxPoints defaultSettings" "0 < maxPoints (defaultSettings\<lparr>minPathLength := 1\<rparr>)"
    by (simp_all add: defaultSettings_def)
  have mp: "\<not> minPathLength defaultSettings \<le> 1" "minPathLength (defaultSettings\<lparr>minPathLength := 1\<rparr>) \<le> 1"
    by (simp_all add: defaultSettings_def)
  from regionTracer_blank_and_single [where data = blank3 and w = 3 and h = 3 and st = defaultSettings] blank
  have a: "findContours defaultSettings (createBinaryMap blank3 3 3) 3 3 = []" by blast
  from regionTracer_blank_and_single [where data = dot3 and w = 3 and h = 3 and ix = 1 and iy = 1
      and st = "defaultSettings\<lparr>minPathLength := 1\<rparr>"]
    dot cap(2) mp(2)
  have b: "findContours (defaultSettings\<lparr>minPathLength := 1\<rparr>) (createBinaryMap dot3 3 3) 3 3
           = [[(1, 1)]]" by simp
  from regionTracer_blank_and_single [where data = dot3 and w = 3 and h = 3 and ix = 1 and iy = 1
      and st = defaultSettings] dot cap(1) mp(1)
  have c: "findContours defaultSettings (createBinaryMap dot3 3 3) 3 3 = []" by simp
  from a b c show ?thesis by blast
qed

subsection \<open>Pixel filters of the processing engine\<close>

text \<open>
  The settings object \<^verbatim>\<open>processingSettings\<close> of the engine, with the values that
  \<^verbatim>\<open>initializeProcessor\<close> gives it.
\<close>

record processingSettings =
  edgeThreshold :: real
  lineWeight :: nat
  gaussianRadius :: real
  morphologyRadius :: nat
  contrastBoost :: real
  brightnessAdjust :: real

definition defaultProcessingSettings :: processingSettings where
  "defaultProcessingSettings =
     \<lparr> edgeThreshold = 50, lineWeight = 2, gaussianRadius = 3 / 2, morphologyRadius = 2,
       contrastBoost = 6 / 5, brightnessAdjust = 0 \<rparr>"

text \<open>
  \<^verbatim>\<open>new ImageData(width, height)\<close> of the platform: a buffer of
  \<^verbatim>\<open>width * height * 4\<close> channel values, all 0 (transparent black). The platform
  makes no \<^verbatim>\<open>ImageData\<close> with a dimension 0, and every value stored in the array
  is between 0 and 255; \<open>wellFormed\<close> states both, with the length of the array.
\<close>

definition new_ImageData :: "nat \<Rightarrow> nat \<Rightarrow> ImageData" where
  "new_ImageData width height =
     \<lparr> img_width = width, img_height = height, img_data = replicate (width * height * 4) 0 \<rparr>"

definition wellFormed :: "ImageData \<Rightarrow> bool" where
  "wellFormed imageData \<longleftrightarrow>
     0 < img_width imageData \<and> 0 < img_height imageData
     \<and> length (img_data imageData) = img_width imageData * img_height imageData * 4
     \<and> (\<forall>v \<in> set (img_data imageData). v \<le> 255)"

definition sobelX :: "int list" where
  "sobelX = [-1, 0, 1, -2, 0, 2, -1, 0, 1]"

definition sobelY :: "int list" where
  "sobelY = [-1, -2, -1, 0, 0, 0, 1, 2, 1]"

text \<open>
  \<^verbatim>\<open>detectEdges(imageData)\<close>. The result starts as a fresh \<^verbatim>\<open>ImageData\<close>; the two
  outer loops run over the rows 1 to \<^verbatim>\<open>height - 2\<close> and the columns 1 to
  \<^verbatim>\<open>width - 2\<close> and write the four channels of that pixel. No other entry of the result
  is written. \<^verbatim>\<open>Math.sqrt\<close> is the real square root.
\<close>

definition detectEdges :: "processingSettings \<Rightarrow> ImageData \<Rightarrow> ImageData" where
  "detectEdges settings imageData =
     (let width = img_width imageData;
          height = img_height imageData;
          data = img_data imageData;
          result = new_ImageData width height
      in result\<lparr> img_data :=
           fold (\<lambda>y. fold (\<lambda>x rdata.
                   let (pixelX, pixelY) =
                         fold (\<lambda>ky. fold (\<lambda>kx (pixelX, pixelY).
                                 let idx = nat ((int y + ky) * int width + (int x + kx)) * 4;
                                     intensity = int (data ! idx);
                                     kernelIdx = nat ((ky + 1) * 3 + (kx + 1))
                                 in (pixelX + intensity * sobelX ! kernelIdx,
                                     pixelY + intensity * sobelY ! kernelIdx))
                               [-1 .. 1])
                              [-1 .. 1] (0, 0);
                       magnitude = sqrt (real_of_int (pixelX * pixelX + pixelY * pixelY));
                       edge = (if magnitude > edgeThreshold settings then 0 else 255);
                       resultIdx = (y * width + x) * 4
                   in rdata[resultIdx := edge, resultIdx + 1 := edge, resultIdx + 2 := edge,
                            resultIdx + 3 := 255])
                 [1 ..< width - 1])
                [1 ..< height - 1] (img_data result) \<rparr>)"

text \<open>
  \<^verbatim>\<open>morphologicalErosion(imageData)\<close> and \<^verbatim>\<open>morphologicalDilation(imageData)\<close>: the
  minimum, respectively the maximum, of the red channel over the square window of radius
  \<^verbatim>\<open>morphologyRadius\<close>, written to the pixels at least that far from every side.
  The chained assignment \<^verbatim>\<open>data[idx] = data[idx + 1] = data[idx + 2] = v\<close> stores
  from right to left.
\<close>

definition morphologicalErosion :: "processingSettings \<Rightarrow> ImageData \<Rightarrow> ImageData" where
  "morphologicalErosion settings imageData =
     (let width = img_width imageData;
          height = img_height imageData;
          data = img_data imageData;
          result = new_ImageData width height;
          radius = morphologyRadius settings
      in result\<lparr> img_data :=
           fold (\<lambda>y. fold (\<lambda>x rdata.
                   let minValue =
                         fold (\<lambda>ky. fold (\<lambda>kx minValue.
                                 let idx = nat ((int y + ky) * int width + (int x + kx)) * 4
                                 in min minValue (data ! idx))
                               [- int radius .. int radius])
                              [- int radius .. int radius] 255;
                       idx = (y * width + x) * 4
                   in rdata[idx + 2 := minValue, idx + 1 := minValue, idx := minValue,
                            idx + 3 := 255])
                 [radius ..< width - radius])
                [radius ..< height - radius] (img_data result) \<rparr>)"

definition morphologicalDilation :: "processingSettings \<Rightarrow> ImageData \<Rightarrow> ImageData" where
  "morphologicalDilation settings imageData =
     (let width = img_width imageData;
          height = img_height imageData;
          data = img_data imageData;
          result = new_ImageData width height;
          radius = morphologyRadius settings
      in result\<lparr> img_data :=
           fold (\<lambda>y. fold (\<lambda>x rdata.
                   let maxValue =
                         fold (\<lambda>ky. fold (\<lambda>kx maxValue.
                                 let idx = nat ((int y + ky) * int width + (int x + kx)) * 4
                                 in max maxValue (data ! idx))
                               [- int radius .. int radius])
                              [- int radius .. int radius] 0;
                       idx = (y * width + x) * 4
                   in rdata[idx + 2 := maxValue, idx + 1 := maxValue, idx := maxValue,
                            idx + 3 := 255])
                 [radius ..< width - radius])
                [radius ..< height - radius] (img_data result) \<rparr>)"

text \<open>
  The loops that write a value \<open>f x y\<close> to the colour channels of each pixel of a block,
  and 255 to its alpha channel.
\<close>

definition pixelIndex :: "nat \<Rightarrow> nat \<Rightarrow> nat \<Rightarrow> nat" where
  "pixelIndex w x y = (y * w + x) * 4"

definition putPixel :: "nat list \<Rightarrow> nat \<Rightarrow> nat \<Rightarrow> nat list" where
  "putPixel d i v = d[i := v, i + 1 := v, i + 2 := v, i + 3 := 255]"

definition paint ::
  "nat \<Rightarrow> (nat \<Rightarrow> nat \<Rightarrow> nat) \<Rightarrow> nat list \<Rightarrow> nat list \<Rightarrow> nat list \<Rightarrow> nat list" where
  "paint w f xs ys d =
     fold (\<lambda>y. fold (\<lambda>x rdata. putPixel rdata (pixelIndex w x y) (f x y)) xs) ys d"

lemma pixel_index_inj:
  assumes "x < w" and "x' < w" and "c < 4" and "c' < 4"
    and "pixelIndex w x y + c = pixelIndex w x' y' + (c'::nat)"
  shows "x = x' \<and> y = y' \<and> c = c'"
proof -
  from assms(3-5) have c: "c = c'" and p: "y * w + x = y' * w + x'"
    unfolding pixelIndex_def by presburger+
  from p have "(y * w + x) div w = (y' * w + x') div w" and "(y * w + x) mod w = (y' * w + x') mod w"
    by simp_all
  with assms(1,2) have "y = y'" and "x = x'" by simp_all
  with c show ?thesis by simp
qed

lemma putPixel_length: "length (putPixel d i v) = length d"
  by (simp add: putPixel_def)

lemma putPixel_same:
  assumes "c < 4" and "i + c < length d"
  shows "putPixel d i v ! (i + c) = (if c = 3 then 255 else v)"
proof -
  from assms(1) have "c = 0 \<or> c = 1 \<or> c = 2 \<or> c = 3" by auto
  with assms(2) show ?thesis by (auto simp: putPixel_def nth_list_update)
qed

lemma putPixel_other:
  assumes "\<And>k. k < 4 \<Longrightarrow> i + k \<noteq> j"
  shows "putPixel d i v ! j = d ! j"
  using assms [of 0] assms [of 1] assms [of 2] assms [of 3] by (simp add: putPixel_def)

lemma put_nth:
  assumes "x < w" and "x' < w" and "c < 4" and "pixelIndex w x' y' + c < length d"
  shows "putPixel d (pixelIndex w x y) v ! (pixelIndex w x' y' + c)
         = (if x = x' \<and> y = y' then (if c = 3 then 255 else v) else d ! (pixelIndex w x' y' + c))"
proof (cases "x = x' \<and> y = y'")
  case True
  with putPixel_same [OF assms(3), of "pixelIndex w x' y'" d v] assms(4) show ?thesis by simp
next
  case False
  have "pixelIndex w x y + k \<noteq> pixelIndex w x' y' + c" if "k < 4" for k
    using pixel_index_inj [OF assms(1,2) that assms(3)] False by blast
  then have "putPixel d (pixelIndex w x y) v ! (pixelIndex w x' y' + c) = d ! (pixelIndex w x' y' + c)"
    by (rule putPixel_other)
  with False show ?thesis by auto
qed

lemma paint_row_length:
  "length (fold (\<lambda>x rdata. putPixel rdata (pixelIndex w x y) (f x y)) xs d) = length d"
  by (induction xs arbitrary: d) (simp_all add: putPixel_length)

lemma paint_row_nth:
  assumes "\<forall>x \<in> set xs. x < w" and "x' < w" and "c < 4" and "pixelIndex w x' y' + c < length d"
  shows "fold (\<lambda>x rdata. putPixel rdata (pixelIndex w x y) (f x y)) xs d
           ! (pixelIndex w x' y' + c)
         = (if x' \<in> set xs \<and> y' = y then (if c = 3 then 255 else f x' y')
            else d ! (pixelIndex w x' y' + c))"
  using assms
proof (induction xs arbitrary: d)
  case Nil
  then show ?case by simp
next
  case (Cons x xs)
  let ?d = "putPixel d (pixelIndex w x y) (f x y)"
  have len: "pixelIndex w x' y' + c < length ?d" using Cons.prems(4) by (simp add: putPixel_length)
  have xw: "x < w" using Cons.prems(1) by simp
  have "\<forall>x \<in> set xs. x < w" using Cons.prems(1) by simp
  from Cons.IH [OF this Cons.prems(2,3) len]
    put_nth [OF xw Cons.prems(2,3,4), of y "f x y"]
  show ?case by auto
qed

lemma paint_length: "length (paint w f xs ys d) = length d"
  unfolding paint_def by (induction ys arbitrary: d) (simp_all add: paint_row_length)

lemma paint_nth:
  assumes "\<forall>x \<in> set xs. x < w" and "x' < w" and "c < 4" and "pixelIndex w x' y' + c < length d"
  shows "paint w f xs ys d ! (pixelIndex w x' y' + c)
         = (if x' \<in> set xs \<and> y' \<in> set ys then (if c = 3 then 255 else f x' y')
            else d ! (pixelIndex w x' y' + c))"
  using assms(4)
proof (induction ys arbitrary: d)
  case Nil
  then show ?case by (simp add: paint_def)
next
  case (Cons y ys)
  let ?d = "fold (\<lambda>x rdata. putPixel rdata (pixelIndex w x y) (f x y)) xs d"
  have len: "pixelIndex w x' y' + c < length ?d" using Cons.prems by (simp add: paint_row_length)
  have step: "paint w f xs (y # ys) d = paint w f xs ys ?d" by (simp add: paint_def)
  from Cons.IH [OF len] paint_row_nth [OF assms(1-3) Cons.prems, of y f]
  show ?case unfolding step by auto
qed

text \<open>The values that the three filters write, named for the proofs.\<close>

definition sobelSums :: "nat list \<Rightarrow> nat \<Rightarrow> nat \<Rightarrow> nat \<Rightarrow> int \<times> int" where
  "sobelSums data width x y =
     fold (\<lambda>ky. fold (\<lambda>kx (pixelX, pixelY).
             let idx = nat ((int y + ky) * int width + (int x + kx)) * 4;
                 intensity = int (data ! idx);
                 kernelIdx = nat ((ky + 1) * 3 + (kx + 1))
             in (pixelX + intensity * sobelX ! kernelIdx,
                 pixelY + intensity * sobelY ! kernelIdx))
           [-1 .. 1])
          [-1 .. 1] (0, 0)"

definition edgeValue :: "processingSettings \<Rightarrow> nat list \<Rightarrow> nat \<Rightarrow> nat \<Rightarrow> nat \<Rightarrow> nat" where
  "edgeValue settings data width x y =
     (case sobelSums data width x y of (pixelX, pixelY) \<Rightarrow>
        if sqrt (real_of_int (pixelX * pixelX + pixelY * pixelY)) > edgeThreshold settings
        then 0 else 255)"

definition windowMin :: "nat list \<Rightarrow> nat \<Rightarrow> nat \<Rightarrow> nat \<Rightarrow> nat \<Rightarrow> nat" where
  "windowMin data width radius x y =
     fold (\<lambda>ky. fold (\<lambda>kx minValue.
             let idx = nat ((int y + ky) * int width + (int x + kx)) * 4
             in min minValue (data ! idx))
           [- int radius .. int radius])
          [- int radius .. int radius] 255"

definition windowMax :: "nat list \<Rightarrow> nat \<Rightarrow> nat \<Rightarrow> nat \<Rightarrow> nat \<Rightarrow> nat" where
  "windowMax data width radius x y =
     fold (\<lambda>ky. fold (\<lambda>kx maxValue.
             let idx = nat ((int y + ky) * int width + (int x + kx)) * 4
             in max maxValue (data ! idx))
           [- int radius .. int radius])
          [- int radius .. int radius] 0"

lemma putPixel_chained: "d[i + 2 := v, i + 1 := v, i := v, i + 3 := a] = d[i := v, i + 1 := v, i + 2 := v, i + 3 := a]"
proof -
  have "d[i + 2 := v, i + 1 := v, i := v] = d[i := v, i + 1 := v, i + 2 := v]"
    by (simp add: list_update_swap)
  then show ?thesis by simp
qed

lemma detectEdges_paint:
  "detectEdges st img =
     \<lparr> img_width = img_width img, img_height = img_height img,
       img_data = paint (img_width img) (edgeValue st (img_data img) (img_width img))
                    [1 ..< img_width img - 1] [1 ..< img_height img - 1]
                    (replicate (img_width img * img_height img * 4) 0) \<rparr>"
  unfolding detectEdges_def paint_def putPixel_def pixelIndex_def edgeValue_def sobelSums_def
    new_ImageData_def Let_def
  by (simp add: case_prod_beta)

lemma morphologicalErosion_paint:
  "morphologicalErosion st img =
     \<lparr> img_width = img_width img, img_height = img_height img,
       img_data = paint (img_width img)
                    (windowMin (img_data img) (img_width img) (morphologyRadius st))
                    [morphologyRadius st ..< img_width img - morphologyRadius st]
                    [morphologyRadius st ..< img_height img - morphologyRadius st]
                    (replicate (img_width img * img_height img * 4) 0) \<rparr>"
  unfolding morphologicalErosion_def paint_def putPixel_def pixelIndex_def windowMin_def
    new_ImageData_def Let_def putPixel_chained
  by simp

lemma morphologicalDilation_paint:
  "morphologicalDilation st img =
     \<lparr> img_width = img_width img, img_height = img_height img,
       img_data = paint (img_width img)
                    (windowMax (img_data img) (img_width img) (morphologyRadius st))
                    [morphologyRadius st ..< img_width img - morphologyRadius st]
                    [morphologyRadius st ..< img_height img - morphologyRadius st]
                    (replicate (img_width img * img_height img * 4) 0) \<rparr>"
  unfolding morphologicalDilation_def paint_def putPixel_def pixelIndex_def windowMax_def
    new_ImageData_def Let_def putPixel_chained
  by simp

text \<open>
  The gradient as the specification words it: the two 3 by 3 kernels applied to the red
  channel around the pixel, and the magnitude \<open>sqrt (gx\<^sup>2 + gy\<^sup>2)\<close>.
\<close>

definition red :: "nat list \<Rightarrow> nat \<Rightarrow> nat \<Rightarrow> nat \<Rightarrow> int" where
  "red data w x y = int (data ! ((y * w + x) * 4))"

definition gradientX :: "nat list \<Rightarrow> nat \<Rightarrow> nat \<Rightarrow> nat \<Rightarrow> int" where
  "gradientX data w x y =
     - red data w (x - 1) (y - 1) + red data w (x + 1) (y - 1)
     - 2 * red data w (x - 1) y + 2 * red data w (x + 1) y
     - red data w (x - 1) (y + 1) + red data w (x + 1) (y + 1)"

definition gradientY :: "nat list \<Rightarrow> nat \<Rightarrow> nat \<Rightarrow> nat \<Rightarrow> int" where
  "gradientY data w x y =
     - red data w (x - 1) (y - 1) - 2 * red data w x (y - 1) - red data w (x + 1) (y - 1)
     + red data w (x - 1) (y + 1) + 2 * red data w x (y + 1) + red data w (x + 1) (y + 1)"

definition sobelMagnitude :: "nat list \<Rightarrow> nat \<Rightarrow> nat \<Rightarrow> nat \<Rightarrow> real" where
  "sobelMagnitude data w x y =
     sqrt (real_of_int ((gradientX data w x y)\<^sup>2 + (gradientY data w x y)\<^sup>2))"

lemma window_index:
  assumes "0 \<le> a" and "0 \<le> b"
  shows "nat (a * int w + b) = nat a * w + nat b"
  using assms by (simp add: nat_add_distrib nat_mult_distrib)

lemma upto_m1_1: "[- 1 .. (1::int)] = [- 1, 0, 1]"
  by (simp add: upto.simps)

lemma sobelSums_eq:
  assumes "1 \<le> x" and "1 \<le> y"
  shows "sobelSums data w x y = (gradientX data w x y, gradientY data w x y)"
proof -
  define p where "p = (\<lambda>kx ky. int (data ! (nat ((int y + ky) * int w + (int x + kx)) * 4)))"
  have sums: "sobelSums data w x y
        = (- p (- 1) (- 1) + p 1 (- 1) - 2 * p (- 1) 0 + 2 * p 1 0 - p (- 1) 1 + p 1 1,
           - p (- 1) (- 1) - 2 * p 0 (- 1) - p 1 (- 1) + p (- 1) 1 + 2 * p 0 1 + p 1 1)"
    unfolding sobelSums_def upto_m1_1 p_def
    by (simp add: Let_def sobelX_def sobelY_def)
  have pr: "p kx ky = red data w (nat (int x + kx)) (nat (int y + ky))"
    if "- 1 \<le> kx" "- 1 \<le> ky" for kx ky
  proof -
    have "nat ((int y + ky) * int w + (int x + kx)) = nat (int y + ky) * w + nat (int x + kx)"
      using that assms by (intro window_index) auto
    then show ?thesis by (simp only: p_def red_def)
  qed
  have nx: "nat (int x + - 1) = x - 1" "nat (int x + 0) = x" "nat (int x + 1) = x + 1"
    and ny: "nat (int y + - 1) = y - 1" "nat (int y + 0) = y" "nat (int y + 1) = y + 1"
    using assms by auto
  have cells: "p (- 1) (- 1) = red data w (x - 1) (y - 1)" "p 0 (- 1) = red data w x (y - 1)"
    "p 1 (- 1) = red data w (x + 1) (y - 1)" "p (- 1) 0 = red data w (x - 1) y"
    "p 1 0 = red data w (x + 1) y" "p (- 1) 1 = red data w (x - 1) (y + 1)"
    "p 0 1 = red data w x (y + 1)" "p 1 1 = red data w (x + 1) (y + 1)"
    using pr [of "- 1" "- 1"] pr [of 0 "- 1"] pr [of 1 "- 1"] pr [of "- 1" 0] pr [of 1 0]
      pr [of "- 1" 1] pr [of 0 1] pr [of 1 1]
    by (simp_all only: nx ny)
  show ?thesis
    unfolding sums cells gradientX_def gradientY_def ..
qed

lemma edgeValue_eq:
  assumes "1 \<le> x" and "1 \<le> y"
  shows "edgeValue st data w x y
         = (if sobelMagnitude data w x y > edgeThreshold st then 0 else 255)"
  by (simp add: edgeValue_def sobelSums_eq [OF assms] sobelMagnitude_def power2_eq_square)

lemma pixel_in_range:
  assumes "x < w" and "y < h" and "c < 4"
  shows "pixelIndex w x y + c < w * h * 4"
proof -
  have "y * w + x < Suc y * w" using assms(1) by simp
  also have "\<dots> \<le> h * w" using assms(2) by (intro mult_le_mono1) simp
  finally have "Suc (y * w + x) \<le> w * h" by (simp add: mult.commute)
  then have "Suc (y * w + x) * 4 \<le> w * h * 4" by (rule mult_le_mono1)
  with assms(3) show ?thesis by (simp add: pixelIndex_def)
qed

lemma detectEdges_interior:
  assumes "1 \<le> x" and "x < img_width img - 1" and "1 \<le> y" and "y < img_height img - 1"
    and "c < 4"
  shows "img_data (detectEdges st img) ! ((y * img_width img + x) * 4 + c)
         = (if c = 3 then 255
            else if sobelMagnitude (img_data img) (img_width img) x y > edgeThreshold st
                 then 0 else 255)"
proof -
  let ?w = "img_width img" and ?h = "img_height img"
  have xw: "x < ?w" and yh: "y < ?h" using assms by auto
  have r: "pixelIndex ?w x y + c < length (replicate (?w * ?h * 4) (0::nat))"
    using pixel_in_range [OF xw yh assms(5)] by simp
  have "\<forall>x \<in> set [1 ..< ?w - 1]. x < ?w" by auto
  from paint_nth [OF this xw assms(5) r] assms(1-4)
  show ?thesis
    by (simp add: detectEdges_paint edgeValue_eq pixelIndex_def)
qed

lemma detectEdges_border:
  assumes "x < img_width img" and "y < img_height img" and "c < 4"
    and "\<not> (1 \<le> x \<and> x < img_width img - 1 \<and> 1 \<le> y \<and> y < img_height img - 1)"
  shows "img_data (detectEdges st img) ! ((y * img_width img + x) * 4 + c) = 0"
proof -
  let ?w = "img_width img" and ?h = "img_height img"
  have r: "pixelIndex ?w x y + c < length (replicate (?w * ?h * 4) (0::nat))"
    using pixel_in_range [OF assms(1-3)] by simp
  have "\<forall>x \<in> set [1 ..< ?w - 1]. x < ?w" by auto
  from paint_nth [OF this assms(1,3) r] assms(4) r
  show ?thesis
    by (auto simp: detectEdges_paint pixelIndex_def)
qed

definition edge3 :: ImageData where
  "edge3 = \<lparr> img_width = 3, img_height = 3,
             img_data = [0, 0, 0, 255,  255, 255, 255, 255,  255, 255, 255, 255,
                         0, 0, 0, 255,  255, 255, 255, 255,  255, 255, 255, 255,
                         0, 0, 0, 255,  255, 255, 255, 255,  255, 255, 255, 255] \<rparr>"

definition white3 :: ImageData where
  "white3 = \<lparr> img_width = 3, img_height = 3, img_data = replicate 36 255 \<rparr>"

text \<open>
  C2. The result of the edge detection has the dimensions of its input. Every
  pixel off the outer ring has the colour channels 0 when the Sobel magnitude of the red
  channel exceeds the threshold and 255 otherwise, and the alpha channel 255. Every pixel
  of the outer ring keeps the value of the fresh buffer: 0 in all four channels.
\<close>

theorem detectEdges_spec:
  "wellFormed img \<longrightarrow>
     img_width (detectEdges st img) = img_width img
   \<and> img_height (detectEdges st img) = img_height img
   \<and> length (img_data (detectEdges st img)) = img_width img * img_height img * 4
   \<and> (\<forall>x y c. 1 \<le> x \<and> x < img_width img - 1 \<and> 1 \<le> y \<and> y < img_height img - 1 \<and> c < 4 \<longrightarrow>
          img_data (detectEdges st img) ! ((y * img_width img + x) * 4 + c)
          = (if c = 3 then 255
             else if sobelMagnitude (img_data img) (img_width img) x y > edgeThreshold st
                  then 0 else 255))
   \<and> (\<forall>x y c. x < img_width img \<and> y < img_height img \<and> c < 4
          \<and> \<not> (1 \<le> x \<and> x < img_width img - 1 \<and> 1 \<le> y \<and> y < img_height img - 1) \<longrightarrow>
          img_data (detectEdges st img) ! ((y * img_width img + x) * 4 + c) = 0)"
proof (intro impI conjI allI)
  show "img_width (detectEdges st img) = img_width img"
    and "img_height (detectEdges st img) = img_height img"
    and "length (img_data (detectEdges st img)) = img_width img * img_height img * 4"
    by (simp_all add: detectEdges_paint paint_length)
next
  fix x y c :: nat
  assume "1 \<le> x \<and> x < img_width img - 1 \<and> 1 \<le> y \<and> y < img_height img - 1 \<and> c < 4"
  then show "img_data (detectEdges st img) ! ((y * img_width img + x) * 4 + c)
          = (if c = 3 then 255
             else if sobelMagnitude (img_data img) (img_width img) x y > edgeThreshold st
                  then 0 else 255)"
    using detectEdges_interior [of x img y c st] by blast
next
  fix x y c :: nat
  assume "x < img_width img \<and> y < img_height img \<and> c < 4
          \<and> \<not> (1 \<le> x \<and> x < img_width img - 1 \<and> 1 \<le> y \<and> y < img_height img - 1)"
  then show "img_data (detectEdges st img) ! ((y * img_width img + x) * 4 + c) = 0"
    using detectEdges_border [of x img y c st] by blast
qed

theorem detectEdges_spec_witness:
  "wellFormed edge3
   \<and> img_data (detectEdges defaultProcessingSettings edge3) ! ((1 * 3 + 1) * 4 + 0) = 0
   \<and> img_data (detectEdges defaultProcessingSettings edge3) ! ((1 * 3 + 1) * 4 + 3) = 255
   \<and> img_data (detectEdges defaultProcessingSettings edge3) ! ((0 * 3 + 2) * 4 + 0) = 0"
proof -
  have wf: "wellFormed edge3" by (simp add: wellFormed_def edge3_def)
  have dims: "img_width edge3 = 3" "img_height edge3 = 3" by (simp_all add: edge3_def)
  have gx: "gradientX (img_data edge3) 3 1 1 = 1020" and gy: "gradientY (img_data edge3) 3 1 1 = 0"
    by (simp_all add: gradientX_def gradientY_def red_def edge3_def)
  have "(50::real)\<^sup>2 < real_of_int (1020\<^sup>2 + 0\<^sup>2)" by simp
  then have mag: "sobelMagnitude (img_data edge3) 3 1 1 > edgeThreshold defaultProcessingSettings"
    unfolding sobelMagnitude_def gx gy defaultProcessingSettings_def
    by (simp add: real_less_rsqrt)
  let ?r = "detectEdges defaultProcessingSettings edge3"
  have in0: "(1::nat) \<le> 1 \<and> (1::nat) < img_width edge3 - 1 \<and> (1::nat) \<le> 1
             \<and> (1::nat) < img_height edge3 - 1 \<and> (0::nat) < 4"
    and in3: "(1::nat) \<le> 1 \<and> (1::nat) < img_width edge3 - 1 \<and> (1::nat) \<le> 1
             \<and> (1::nat) < img_height edge3 - 1 \<and> (3::nat) < 4"
    and out: "(2::nat) < img_width edge3 \<and> (0::nat) < img_height edge3 \<and> (0::nat) < 4
             \<and> \<not> ((1::nat) \<le> 2 \<and> (2::nat) < img_width edge3 - 1 \<and> (1::nat) \<le> 0
                    \<and> (0::nat) < img_height edge3 - 1)"
    by (simp_all add: dims)
  have "img_data ?r ! ((1 * img_width edge3 + 1) * 4 + 0)
        = (if (0::nat) = 3 then 255
           else if sobelMagnitude (img_data edge3) (img_width edge3) 1 1
                     > edgeThreshold defaultProcessingSettings then 0 else 255)"
    using detectEdges_spec [of edge3 defaultProcessingSettings] wf in0 by blast
  then have a: "img_data ?r ! ((1 * 3 + 1) * 4 + 0) = 0"
    using mag by (simp add: dims)
  have "img_data ?r ! ((1 * img_width edge3 + 1) * 4 + 3)
        = (if (3::nat) = 3 then 255
           else if sobelMagnitude (img_data edge3) (img_width edge3) 1 1
                     > edgeThreshold defaultProcessingSettings then 0 else 255)"
    using detectEdges_spec [of edge3 defaultProcessingSettings] wf in3 by blast
  then have b: "img_data ?r ! ((1 * 3 + 1) * 4 + 3) = 255"
    by (simp add: dims)
  have "img_data ?r ! ((0 * img_width edge3 + 2) * 4 + 0) = 0"
    using detectEdges_spec [of edge3 defaultProcessingSettings] wf out by blast
  then have c: "img_data ?r ! ((0 * 3 + 2) * 4 + 0) = 0"
    by (simp add: dims)
  from wf a b c show ?thesis by blast
qed

text \<open>
  The statement of the specification fails on the outer ring: on a uniformly white 3 by 3 buffer the red
  channel of the corner pixel of the result is 0, not 255.
\<close>

theorem detectEdges_border_counterexample:
  "wellFormed white3
   \<and> img_data (detectEdges defaultProcessingSettings white3) ! 0 = 0"
proof -
  have "img_data (detectEdges defaultProcessingSettings white3) ! ((0 * img_width white3 + 0) * 4 + 0) = 0"
    by (rule detectEdges_border) (simp_all add: white3_def)
  then show ?thesis by (simp add: wellFormed_def white3_def)
qed

subsection \<open>Erosion, dilation and their composition\<close>

lemma fold_decreasing:
  assumes "\<And>k m. F k m \<le> (m::nat)"
  shows "fold F ks m \<le> m"
proof (induction ks arbitrary: m)
  case Nil
  show ?case by simp
next
  case (Cons a ks)
  have "fold F ks (F a m) \<le> F a m" by (rule Cons.IH)
  also have "\<dots> \<le> m" by (rule assms)
  finally show ?case by simp
qed

lemma fold_decreasing_hit:
  assumes "\<And>k m. F k m \<le> (m::nat)" and "k \<in> set ks" and "\<And>m. F k m \<le> b"
  shows "fold F ks m \<le> b"
  using assms(2)
proof (induction ks arbitrary: m)
  case Nil
  then show ?case by simp
next
  case (Cons a ks)
  show ?case
  proof (cases "a = k")
    case True
    have "fold F ks (F k m) \<le> F k m" using assms(1) by (rule fold_decreasing)
    also have "\<dots> \<le> b" by (rule assms(3))
    finally show ?thesis using True by simp
  next
    case False
    with Cons.prems have "k \<in> set ks" by simp
    then show ?thesis using Cons.IH by simp
  qed
qed

lemma fold_increasing:
  assumes "\<And>k m. (m::nat) \<le> F k m"
  shows "m \<le> fold F ks m"
proof (induction ks arbitrary: m)
  case Nil
  show ?case by simp
next
  case (Cons a ks)
  have "m \<le> F a m" by (rule assms)
  also have "\<dots> \<le> fold F ks (F a m)" by (rule Cons.IH)
  finally show ?case by simp
qed

lemma fold_increasing_hit:
  assumes "\<And>k m. (m::nat) \<le> F k m" and "k \<in> set ks" and "\<And>m. b \<le> F k m"
  shows "b \<le> fold F ks m"
  using assms(2)
proof (induction ks arbitrary: m)
  case Nil
  then show ?case by simp
next
  case (Cons a ks)
  show ?case
  proof (cases "a = k")
    case True
    have "b \<le> F k m" by (rule assms(3))
    also have "\<dots> \<le> fold F ks (F k m)" using assms(1) by (rule fold_increasing)
    finally show ?thesis using True by simp
  next
    case False
    with Cons.prems have "k \<in> set ks" by simp
    then show ?thesis using Cons.IH by simp
  qed
qed

lemma fold_bounded:
  assumes "m \<le> (b::nat)" and "\<And>k m. k \<in> set ks \<Longrightarrow> m \<le> b \<Longrightarrow> F k m \<le> b"
  shows "fold F ks m \<le> b"
  using assms by (induction ks arbitrary: m) auto

lemma windowMin_le:
  assumes "- int r \<le> kx" and "kx \<le> int r" and "- int r \<le> ky" and "ky \<le> int r"
  shows "windowMin data w r x y \<le> data ! (nat ((int y + ky) * int w + (int x + kx)) * 4)"
proof -
  let ?g = "\<lambda>kx ky. data ! (nat ((int y + ky) * int w + (int x + kx)) * 4)"
  let ?inner = "\<lambda>ky. fold (\<lambda>kx m. min m (?g kx ky)) [- int r .. int r]"
  have dec: "?inner k m \<le> m" for k m by (rule fold_decreasing) simp
  have hit: "?inner ky m \<le> ?g kx ky" for m
    by (rule fold_decreasing_hit [where k = kx]) (simp_all add: assms)
  have "fold ?inner [- int r .. int r] 255 \<le> ?g kx ky"
    by (rule fold_decreasing_hit [where k = ky]) (simp_all add: dec hit assms)
  then show ?thesis by (simp add: windowMin_def Let_def)
qed

lemma windowMax_ge:
  assumes "- int r \<le> kx" and "kx \<le> int r" and "- int r \<le> ky" and "ky \<le> int r"
  shows "data ! (nat ((int y + ky) * int w + (int x + kx)) * 4) \<le> windowMax data w r x y"
proof -
  let ?g = "\<lambda>kx ky. data ! (nat ((int y + ky) * int w + (int x + kx)) * 4)"
  let ?inner = "\<lambda>ky. fold (\<lambda>kx m. max m (?g kx ky)) [- int r .. int r]"
  have inc: "m \<le> ?inner k m" for k m by (rule fold_increasing) simp
  have hit: "?g kx ky \<le> ?inner ky m" for m
    by (rule fold_increasing_hit [where k = kx]) (simp_all add: assms)
  have "?g kx ky \<le> fold ?inner [- int r .. int r] 0"
    by (rule fold_increasing_hit [where k = ky]) (simp_all add: inc hit assms)
  then show ?thesis by (simp add: windowMax_def Let_def)
qed

lemma windowMax_le:
  assumes "\<And>kx ky. - int r \<le> kx \<Longrightarrow> kx \<le> int r \<Longrightarrow> - int r \<le> ky \<Longrightarrow> ky \<le> int r
             \<Longrightarrow> data ! (nat ((int y + ky) * int w + (int x + kx)) * 4) \<le> b"
  shows "windowMax data w r x y \<le> b"
proof -
  let ?g = "\<lambda>kx ky. data ! (nat ((int y + ky) * int w + (int x + kx)) * 4)"
  let ?inner = "\<lambda>ky. fold (\<lambda>kx m. max m (?g kx ky)) [- int r .. int r]"
  have inner: "?inner ky m \<le> b" if "ky \<in> set [- int r .. int r]" "m \<le> b" for ky m
    using that(2)
  proof (rule fold_bounded)
    fix kx m assume "kx \<in> set [- int r .. int r]" and "m \<le> b"
    with that(1) assms [of kx ky] show "max m (?g kx ky) \<le> b" by simp
  qed
  have "fold ?inner [- int r .. int r] 0 \<le> b"
    by (rule fold_bounded) (simp, rule inner)
  then show ?thesis by (simp add: windowMax_def Let_def)
qed

lemma index_decompose:
  assumes "i < w * h * 4"
  obtains x y c where "x < w" and "y < h" and "c < 4" and "i = pixelIndex w x y + c"
proof -
  have w: "0 < w" using assms by (cases w) auto
  have p: "i div 4 < h * w" using assms by (simp add: mult.commute)
  show thesis
  proof (rule that)
    show "(i div 4) mod w < w" using w by simp
    show "(i div 4) div w < h" using p by (rule less_mult_imp_div_less)
    show "i mod 4 < 4" by simp
    show "i = pixelIndex w ((i div 4) mod w) ((i div 4) div w) + i mod 4"
      by (simp add: pixelIndex_def)
  qed
qed

text \<open>
  The ink support of a buffer, as \<open>createBinaryMap\<close> reads it: the pixels whose red
  channel is below 128.
\<close>

definition inkSupport :: "ImageData \<Rightarrow> (nat \<times> nat) set" where
  "inkSupport img =
     {(x, y). x < img_width img \<and> y < img_height img
              \<and> img_data img ! ((y * img_width img + x) * 4) < 128}"

lemma erosion_nth:
  assumes "x < img_width img" and "y < img_height img" and "c < 4"
  shows "img_data (morphologicalErosion st img) ! (pixelIndex (img_width img) x y + c)
         = (if x \<in> set [morphologyRadius st ..< img_width img - morphologyRadius st]
               \<and> y \<in> set [morphologyRadius st ..< img_height img - morphologyRadius st]
            then (if c = 3 then 255
                  else windowMin (img_data img) (img_width img) (morphologyRadius st) x y)
            else 0)"
proof -
  let ?w = "img_width img" and ?h = "img_height img" and ?r = "morphologyRadius st"
  let ?z = "replicate (?w * ?h * 4) (0::nat)"
  have len: "pixelIndex ?w x y + c < length ?z" using pixel_in_range [OF assms] by simp
  have xs: "\<forall>x \<in> set [?r ..< ?w - ?r]. x < ?w" by auto
  have z: "?z ! (pixelIndex ?w x y + c) = 0" using len by simp
  show ?thesis
    unfolding morphologicalErosion_paint ImageData.simps paint_nth [OF xs assms(1,3) len] z ..
qed

lemma dilation_nth:
  assumes "x < img_width img" and "y < img_height img" and "c < 4"
  shows "img_data (morphologicalDilation st img) ! (pixelIndex (img_width img) x y + c)
         = (if x \<in> set [morphologyRadius st ..< img_width img - morphologyRadius st]
               \<and> y \<in> set [morphologyRadius st ..< img_height img - morphologyRadius st]
            then (if c = 3 then 255
                  else windowMax (img_data img) (img_width img) (morphologyRadius st) x y)
            else 0)"
proof -
  let ?w = "img_width img" and ?h = "img_height img" and ?r = "morphologyRadius st"
  let ?z = "replicate (?w * ?h * 4) (0::nat)"
  have len: "pixelIndex ?w x y + c < length ?z" using pixel_in_range [OF assms] by simp
  have xs: "\<forall>x \<in> set [?r ..< ?w - ?r]. x < ?w" by auto
  have z: "?z ! (pixelIndex ?w x y + c) = 0" using len by simp
  show ?thesis
    unfolding morphologicalDilation_paint ImageData.simps paint_nth [OF xs assms(1,3) len] z ..
qed

lemma erosion_dims:
  "img_width (morphologicalErosion st img) = img_width img"
  "img_height (morphologicalErosion st img) = img_height img"
  by (simp_all add: morphologicalErosion_paint)

lemma dilation_dims:
  "img_width (morphologicalDilation st img) = img_width img"
  "img_height (morphologicalDilation st img) = img_height img"
  by (simp_all add: morphologicalDilation_paint)

text \<open>
  On every channel of every pixel the result of erosion is below the result of dilation.
  On the red channel, dilation after erosion gives a value below that of the input: the
  composition only darkens, it never turns an ink pixel into background.
\<close>

lemma erosion_le_dilation:
  assumes "i < img_width img * img_height img * 4"
  shows "img_data (morphologicalErosion st img) ! i \<le> img_data (morphologicalDilation st img) ! i"
proof -
  let ?w = "img_width img" and ?h = "img_height img" and ?r = "morphologyRadius st"
  from assms obtain x y c where x: "x < ?w" and y: "y < ?h" and c: "c < 4"
    and i: "i = pixelIndex ?w x y + c" by (rule index_decompose)
  have "windowMin (img_data img) ?w ?r x y
        \<le> img_data img ! (nat ((int y + 0) * int ?w + (int x + 0)) * 4)"
    by (rule windowMin_le) simp_all
  also have "\<dots> \<le> windowMax (img_data img) ?w ?r x y"
    by (rule windowMax_ge) simp_all
  finally show ?thesis
    unfolding i erosion_nth [OF x y c] dilation_nth [OF x y c] by simp
qed

lemma opening_le:
  assumes x: "x < img_width img" and y: "y < img_height img"
  shows "img_data (morphologicalDilation st (morphologicalErosion st img)) ! ((y * img_width img + x) * 4)
         \<le> img_data img ! ((y * img_width img + x) * 4)"
proof -
  let ?w = "img_width img" and ?h = "img_height img" and ?r = "morphologyRadius st"
  let ?xs = "[?r ..< ?w - ?r]" and ?ys = "[?r ..< ?h - ?r]"
  let ?E = "morphologicalErosion st img"
  have c0: "(0::nat) < 4" by simp
  have o: "img_data (morphologicalDilation st ?E) ! (pixelIndex ?w x y + 0)
           = (if x \<in> set ?xs \<and> y \<in> set ?ys
              then windowMax (img_data ?E) ?w ?r x y else 0)"
    using dilation_nth [of x ?E y 0 st] x y by (simp add: erosion_dims)
  have goal: "img_data (morphologicalDilation st ?E) ! (pixelIndex ?w x y + 0)
              \<le> img_data img ! pixelIndex ?w x y"
  proof (cases "x \<in> set ?xs \<and> y \<in> set ?ys")
    case False
    then have "img_data (morphologicalDilation st ?E) ! (pixelIndex ?w x y + 0) = 0"
      unfolding o by (rule if_not_P)
    then show ?thesis by simp
  next
    case True
    then have xr: "?r \<le> x" "x < ?w - ?r" and yr: "?r \<le> y" "y < ?h - ?r" by auto
    have "windowMax (img_data ?E) ?w ?r x y \<le> img_data img ! pixelIndex ?w x y"
    proof (rule windowMax_le)
      fix kx ky :: int
      assume k: "- int ?r \<le> kx" "kx \<le> int ?r" "- int ?r \<le> ky" "ky \<le> int ?r"
      define a where "a = nat (int x + kx)"
      define b where "b = nat (int y + ky)"
      have nn: "0 \<le> int x + kx" "0 \<le> int y + ky" using k xr yr by linarith+
      have ia: "int a = int x + kx" and ib: "int b = int y + ky"
        using nn by (simp_all add: a_def b_def)
      have a: "a < ?w" and b: "b < ?h" using ia ib k xr yr by linarith+
      have "nat ((int y + ky) * int ?w + (int x + kx)) = nat (int b * int ?w + int a)"
        by (simp only: ia ib)
      also have "\<dots> = b * ?w + a" by (simp add: nat_add_distrib nat_mult_distrib)
      finally have idx: "nat ((int y + ky) * int ?w + (int x + kx)) * 4 = pixelIndex ?w a b + 0"
        by (simp add: pixelIndex_def)
      have e: "int b + - ky = int y" "int a + - kx = int x" using ia ib by simp_all
      have "nat ((int b + - ky) * int ?w + (int a + - kx)) = nat (int y * int ?w + int x)"
        by (simp only: e)
      also have "\<dots> = y * ?w + x" by (simp add: nat_add_distrib nat_mult_distrib)
      finally have bk: "nat ((int b + - ky) * int ?w + (int a + - kx)) * 4 = pixelIndex ?w x y"
        by (simp add: pixelIndex_def)
      have mk: "- int ?r \<le> - kx" "- kx \<le> int ?r" "- int ?r \<le> - ky" "- ky \<le> int ?r"
        using k by linarith+
      have "windowMin (img_data img) ?w ?r a b
            \<le> img_data img ! (nat ((int b + - ky) * int ?w + (int a + - kx)) * 4)"
        using mk by (rule windowMin_le)
      then have le: "windowMin (img_data img) ?w ?r a b \<le> img_data img ! pixelIndex ?w x y"
        by (simp only: bk)
      have "img_data ?E ! (pixelIndex ?w a b + 0) \<le> img_data img ! pixelIndex ?w x y"
        unfolding erosion_nth [OF a b c0] using le by simp
      then show "img_data ?E ! (nat ((int y + ky) * int ?w + (int x + kx)) * 4)
                 \<le> img_data img ! pixelIndex ?w x y"
        by (simp only: idx)
    qed
    moreover have "img_data (morphologicalDilation st ?E) ! (pixelIndex ?w x y + 0)
                   = windowMax (img_data ?E) ?w ?r x y"
      unfolding o by (rule if_P [OF True])
    ultimately show ?thesis by simp
  qed
  then show ?thesis by (simp add: pixelIndex_def)
qed

text \<open>
  Two 9 by 9 buffers: \<open>hole9\<close> is black but for its white centre pixel, \<open>line9\<close> is white
  but for the one pixel wide black row through its centre. Both are well-formed. With the
  default radius 2 the windows of the pixels 2 to 6 of the rows 2 to 6 lie inside the buffer.
\<close>

definition hole9 :: ImageData where
  "hole9 = \<lparr> img_width = 9, img_height = 9, img_data = opaqueGray ((replicate 81 0)[40 := 255]) \<rparr>"

definition line9 :: ImageData where
  "line9 = \<lparr> img_width = 9, img_height = 9,
             img_data = opaqueGray (replicate 36 255 @ replicate 9 0 @ replicate 36 255) \<rparr>"

lemma hole9_red:
  assumes "x < 9" and "y < 9"
  shows "img_data hole9 ! pixelIndex 9 x y = (if x = 4 \<and> y = 4 then 255 else 0)"
proof -
  have j: "y * 9 + x < 81" using assms by linarith
  have c: "y * 9 + x = 40 \<longleftrightarrow> x = 4 \<and> y = 4" using assms by presburger
  have "img_data hole9 ! pixelIndex 9 x y = ((replicate 81 0)[40 := 255]) ! (y * 9 + x)"
    unfolding hole9_def pixelIndex_def ImageData.select_convs
    using j by (intro opaqueGray_red) simp
  also have "\<dots> = (if x = 4 \<and> y = 4 then 255 else 0)"
    using j c by (simp add: nth_list_update eq_commute [of 40])
  finally show ?thesis .
qed

lemma line9_red:
  assumes "x < 9" and "y < 9"
  shows "img_data line9 ! pixelIndex 9 x y = (if y = 4 then 0 else 255)"
proof -
  let ?g = "replicate 36 255 @ replicate 9 0 @ replicate 36 (255::nat)"
  have j: "y * 9 + x < 81" using assms by linarith
  have a: "y * 9 + x < 36 \<longleftrightarrow> y < 4" using assms by presburger
  have b: "y * 9 + x - 36 < 9 \<longleftrightarrow> y \<le> 4" using assms by presburger
  have "img_data line9 ! pixelIndex 9 x y = ?g ! (y * 9 + x)"
    unfolding line9_def pixelIndex_def ImageData.select_convs
    using j by (intro opaqueGray_red) simp
  also have "\<dots> = (if y = 4 then 0 else 255)"
    using j a b by (auto simp add: nth_append)
  finally show ?thesis .
qed

lemma hole9_wellFormed: "wellFormed hole9"
proof -
  have "\<forall>v \<in> set ((replicate 81 0)[40 := 255::nat]). v \<le> 255"
    by (auto dest!: set_update_subset_insert [THEN subsetD])
  from opaqueGray_bound [OF this] show ?thesis
    by (simp add: wellFormed_def hole9_def opaqueGray_length)
qed

lemma line9_wellFormed: "wellFormed line9"
proof -
  have "\<forall>v \<in> set (replicate 36 255 @ replicate 9 0 @ replicate 36 (255::nat)). v \<le> 255"
    by auto
  from opaqueGray_bound [OF this] show ?thesis
    by (simp add: wellFormed_def line9_def opaqueGray_length)
qed

lemma window_pixel:
  assumes "0 \<le> int x + kx" and "0 \<le> int y + ky"
  shows "nat ((int y + ky) * int w + (int x + kx)) * 4
         = pixelIndex w (nat (int x + kx)) (nat (int y + ky))"
proof -
  have "(int y + ky) * int w + (int x + kx)
        = int (nat (int y + ky) * w + nat (int x + kx))"
    using assms by simp
  then have "nat ((int y + ky) * int w + (int x + kx)) = nat (int y + ky) * w + nat (int x + kx)"
    by (simp only: nat_int)
  then show ?thesis by (simp only: pixelIndex_def)
qed

lemma hole9_eroded:
  assumes "2 \<le> a" "a < 7" "2 \<le> b" "b < 7"
  shows "img_data (morphologicalErosion defaultProcessingSettings hole9) ! pixelIndex 9 a b = 0"
proof -
  define kx :: int where "kx = (if a = 4 then 1 else 0)"
  have k: "- int 2 \<le> kx" "kx \<le> int 2" "- int 2 \<le> (0::int)" "(0::int) \<le> int 2"
    by (simp_all add: kx_def)
  have nn: "0 \<le> int a + kx" "0 \<le> int b + 0" by (simp_all add: kx_def)
  have a': "nat (int a + kx) < 9" "nat (int a + kx) \<noteq> 4" and b': "nat (int b + 0) < 9"
    using assms by (auto simp add: kx_def)
  have "windowMin (img_data hole9) 9 2 a b
        \<le> img_data hole9 ! (nat ((int b + 0) * int 9 + (int a + kx)) * 4)"
    using k by (rule windowMin_le)
  also have "\<dots> = img_data hole9 ! pixelIndex 9 (nat (int a + kx)) (nat (int b + 0))"
    by (simp only: window_pixel [OF nn])
  also have "\<dots> = 0" using a' b' by (simp only: hole9_red) simp
  finally have m: "windowMin (img_data hole9) 9 2 a b = 0" by simp
  have r: "morphologyRadius defaultProcessingSettings = 2"
    by (simp add: defaultProcessingSettings_def)
  have d: "img_width hole9 = 9" "img_height hole9 = 9" by (simp_all add: hole9_def)
  have "img_data (morphologicalErosion defaultProcessingSettings hole9)
          ! (pixelIndex (img_width hole9) a b + 0) = 0"
    using assms by (subst erosion_nth) (simp_all add: d r m)
  then show ?thesis by (simp add: d)
qed

text \<open>
  C3. The specification says that erosion then dilation never adds ink outside the ink of
  its input. \<^verbatim>\<open>morphologicalErosion\<close> takes the minimum and \<^verbatim>\<open>morphologicalDilation\<close> the
  maximum of the channel values of the window, and ink is the low value (below 128). So on
  \<open>hole9\<close>, with the default radius 2, the centre pixel is not ink in the input and is ink
  after erosion then dilation: ink is added. On \<open>line9\<close> one dilation, the pass that
  \<^verbatim>\<open>adjustLineWeight\<close> applies under the comment ``Apply dilation to thicken lines'', turns
  the centre pixel of the line white: the line is removed, not thickened.
\<close>

theorem opening_fills_hole:
  "(4, 4) \<notin> inkSupport hole9
   \<and> (4, 4) \<in> inkSupport (morphologicalDilation defaultProcessingSettings
                             (morphologicalErosion defaultProcessingSettings hole9))
   \<and> (4, 4) \<in> inkSupport line9
   \<and> (4, 4) \<notin> inkSupport (morphologicalDilation defaultProcessingSettings line9)"
proof -
  let ?st = defaultProcessingSettings
  let ?E = "morphologicalErosion ?st hole9"
  let ?O = "morphologicalDilation ?st ?E"
  let ?D = "morphologicalDilation ?st line9"
  have r: "morphologyRadius ?st = 2" by (simp add: defaultProcessingSettings_def)
  have dh: "img_width hole9 = 9" "img_height hole9 = 9" by (simp_all add: hole9_def)
  have dl: "img_width line9 = 9" "img_height line9 = 9" by (simp_all add: line9_def)
  have dE: "img_width ?E = 9" "img_height ?E = 9" by (simp_all add: erosion_dims dh)
  have dO: "img_width ?O = 9" "img_height ?O = 9" by (simp_all add: dilation_dims dE)
  have dD: "img_width ?D = 9" "img_height ?D = 9" by (simp_all add: dilation_dims dl)
  have idx: "pixelIndex 9 4 4 = 160" by (simp add: pixelIndex_def)
  have in0: "img_data hole9 ! pixelIndex 9 4 4 = 255" by (simp add: hole9_red)
  have "windowMax (img_data ?E) 9 2 4 4 \<le> 0"
  proof (rule windowMax_le)
    fix kx ky :: int
    assume k: "- int 2 \<le> kx" "kx \<le> int 2" "- int 2 \<le> ky" "ky \<le> int 2"
    then have nn: "0 \<le> int 4 + kx" "0 \<le> int 4 + ky" by simp_all
    have ab: "2 \<le> nat (int 4 + kx)" "nat (int 4 + kx) < 7"
      "2 \<le> nat (int 4 + ky)" "nat (int 4 + ky) < 7"
      using k by simp_all
    have "img_data ?E ! (nat ((int 4 + ky) * int 9 + (int 4 + kx)) * 4)
          = img_data ?E ! pixelIndex 9 (nat (int 4 + kx)) (nat (int 4 + ky))"
      by (simp only: window_pixel [OF nn])
    also have "\<dots> = 0" using ab by (rule hole9_eroded)
    finally show "img_data ?E ! (nat ((int 4 + ky) * int 9 + (int 4 + kx)) * 4) \<le> 0" by simp
  qed
  then have wm: "windowMax (img_data ?E) 9 2 4 4 = 0" by simp
  have "img_data ?O ! (pixelIndex (img_width ?E) 4 4 + 0) = 0"
    by (subst dilation_nth) (simp_all add: dE r wm)
  then have out0: "img_data ?O ! pixelIndex 9 4 4 = 0" by (simp add: dE)
  have in1: "img_data line9 ! pixelIndex 9 4 4 = 0" by (simp add: line9_red)
  have nn1: "0 \<le> int 4 + (0::int)" "0 \<le> int 4 + (1::int)" by simp_all
  have "img_data line9 ! (nat ((int 4 + 1) * int 9 + (int 4 + 0)) * 4)
        \<le> windowMax (img_data line9) 9 2 4 4"
    by (rule windowMax_ge) simp_all
  moreover have "img_data line9 ! (nat ((int 4 + 1) * int 9 + (int 4 + 0)) * 4) = 255"
    by (simp only: window_pixel [OF nn1]) (simp add: line9_red)
  ultimately have wl: "255 \<le> windowMax (img_data line9) 9 2 4 4" by simp
  have "img_data ?D ! (pixelIndex (img_width line9) 4 4 + 0) = windowMax (img_data line9) 9 2 4 4"
    by (subst dilation_nth) (simp_all add: dl r)
  then have out1: "255 \<le> img_data ?D ! pixelIndex 9 4 4" using wl by (simp add: dl)
  have a: "(4, 4) \<notin> inkSupport hole9" using in0 by (simp add: inkSupport_def dh idx)
  have b: "(4, 4) \<in> inkSupport ?O" using out0 by (simp add: inkSupport_def dO idx)
  have c: "(4, 4) \<in> inkSupport line9" using in1 by (simp add: inkSupport_def dl idx)
  have d: "(4, 4) \<notin> inkSupport ?D" using out1 by (simp add: inkSupport_def dD idx)
  from a b c d show ?thesis by blast
qed

subsection \<open>Batch processing\<close>

text \<open>
  An input file as the engine meets it: its name and size, whether the file reader can
  read it, and the natural width and height of the decoded image, \<open>None\<close> when the image
  element reports \<^verbatim>\<open>onerror\<close>.
\<close>

record imageFile =
  file_name :: string
  file_size :: nat
  file_readable :: bool
  file_image :: "(nat \<times> nat) option"

text \<open>
  The errors that reject the promise of \<^verbatim>\<open>processSingleImage\<close>: the two
  \<^verbatim>\<open>new Error\<close> of the source, and the \<^verbatim>\<open>IndexSizeError\<close> that the platform's
  \<^verbatim>\<open>getImageData\<close> throws for a width or height of 0, caught by the
  \<^verbatim>\<open>try\<close> of the \<^verbatim>\<open>onload\<close> handler.
\<close>

datatype processingError =
  FailedToReadFile string
| FailedToLoadImage string
| IndexSizeError

text \<open>
  The result object of one image; its pixel buffers are left out, the metadata is kept.
\<close>

record imageResult =
  res_index :: nat
  res_filename :: string
  res_width :: nat
  res_height :: nat
  res_fileSize :: nat

text \<open>\<^verbatim>\<open>Math.round\<close> on a number that is not negative.\<close>

definition jsRound :: "real \<Rightarrow> nat" where
  "jsRound v = nat \<lfloor>v + 1 / 2\<rfloor>"

text \<open>
  \<^verbatim>\<open>setupCanvas(img)\<close>: the dimensions given to the canvas. For \<^verbatim>\<open>height = 0\<close>
  and \<^verbatim>\<open>width > 1200\<close> JavaScript computes \<^verbatim>\<open>1200 / Infinity = 0\<close>; the division
  by 0 of the reals gives the same 0.
\<close>

definition setupCanvas :: "nat \<times> nat \<Rightarrow> nat \<times> nat" where
  "setupCanvas dims =
     (case dims of (width, height) \<Rightarrow>
        let maxWidth = 1200; maxHeight = 1200 in
        if width > maxWidth \<or> height > maxHeight then
          let aspectRatio = real width / real height in
          if width > height
          then (jsRound (real maxWidth), jsRound (real maxWidth / aspectRatio))
          else (jsRound (real maxHeight * aspectRatio), jsRound (real maxHeight))
        else (jsRound (real width), jsRound (real height)))"

definition processSingleImage :: "imageFile \<Rightarrow> nat \<Rightarrow> processingError + imageResult" where
  "processSingleImage file index =
     (if \<not> file_readable file then Inl (FailedToReadFile (file_name file))
      else
        case file_image file of
          None \<Rightarrow> Inl (FailedToLoadImage (file_name file))
        | Some dims \<Rightarrow>
            (case setupCanvas dims of (canvasWidth, canvasHeight) \<Rightarrow>
               if canvasWidth = 0 \<or> canvasHeight = 0 then Inl IndexSizeError
               else Inr \<lparr> res_index = index, res_filename = file_name file,
                          res_width = canvasWidth, res_height = canvasHeight,
                          res_fileSize = file_size file \<rparr>))"

text \<open>
  The loop of \<^verbatim>\<open>processImages\<close> inside its \<^verbatim>\<open>try\<close>: each result is pushed to
  \<^verbatim>\<open>results\<close>; an error of one image leaves the loop, is reported and thrown again by
  the \<^verbatim>\<open>catch\<close>, so the call returns no result list.
\<close>

fun processLoop ::
  "imageFile list \<Rightarrow> nat \<Rightarrow> imageResult list \<Rightarrow> processingError + imageResult list" where
  "processLoop [] i results = Inr results"
| "processLoop (file # files) i results =
     (case processSingleImage file i of
        Inl error \<Rightarrow> Inl error
      | Inr processedResult \<Rightarrow> processLoop files (i + 1) (results @ [processedResult]))"

definition processImages :: "imageFile list \<Rightarrow> processingError + imageResult list" where
  "processImages imageFiles = processLoop imageFiles 0 []"

lemma processLoop_success:
  assumes "\<forall>j < length fs. \<exists>r. processSingleImage (fs ! j) (i + j) = Inr r"
  shows "\<exists>rs. processLoop fs i acc = Inr (acc @ rs) \<and> length rs = length fs
              \<and> (\<forall>j < length fs. processSingleImage (fs ! j) (i + j) = Inr (rs ! j))"
  using assms
proof (induction fs arbitrary: i acc)
  case Nil
  then show ?case by simp
next
  case (Cons f fs)
  from Cons.prems have "\<exists>r. processSingleImage ((f # fs) ! 0) (i + 0) = Inr r" by blast
  then obtain r where r: "processSingleImage f i = Inr r" by auto
  have "\<forall>j < length fs. \<exists>r. processSingleImage (fs ! j) (Suc i + j) = Inr r"
  proof (intro allI impI)
    fix j assume "j < length fs"
    then have "Suc j < length (f # fs)" by simp
    with Cons.prems have "\<exists>r. processSingleImage ((f # fs) ! Suc j) (i + Suc j) = Inr r" by blast
    then show "\<exists>r. processSingleImage (fs ! j) (Suc i + j) = Inr r" by simp
  qed
  from Cons.IH [OF this, of "acc @ [r]"]
  obtain rs where rs: "processLoop fs (Suc i) (acc @ [r]) = Inr ((acc @ [r]) @ rs)"
    and len: "length rs = length fs"
    and each: "\<forall>j < length fs. processSingleImage (fs ! j) (Suc i + j) = Inr (rs ! j)"
    by blast
  have "\<forall>j < length (f # fs). processSingleImage ((f # fs) ! j) (i + j) = Inr ((r # rs) ! j)"
  proof (intro allI impI)
    fix j assume j: "j < length (f # fs)"
    show "processSingleImage ((f # fs) ! j) (i + j) = Inr ((r # rs) ! j)"
    proof (cases j)
      case 0
      with r show ?thesis by simp
    next
      case (Suc k)
      with j each show ?thesis by simp
    qed
  qed
  with rs len r show ?case by (intro exI [of _ "r # rs"]) simp
qed

lemma processLoop_failure:
  assumes "k < length fs" and "processSingleImage (fs ! k) (i + k) = Inl e"
    and "\<forall>j < k. \<exists>r. processSingleImage (fs ! j) (i + j) = Inr r"
  shows "processLoop fs i acc = Inl e"
  using assms
proof (induction fs arbitrary: i k acc)
  case Nil
  then show ?case by simp
next
  case (Cons f fs)
  show ?case
  proof (cases k)
    case 0
    with Cons.prems(2) show ?thesis by simp
  next
    case (Suc k')
    from Cons.prems(3) Suc have "\<exists>r. processSingleImage ((f # fs) ! 0) (i + 0) = Inr r" by blast
    then obtain r where r: "processSingleImage f i = Inr r" by auto
    have a: "k' < length fs" using Cons.prems(1) Suc by simp
    have b: "processSingleImage (fs ! k') (Suc i + k') = Inl e" using Cons.prems(2) Suc by simp
    have c: "\<forall>j < k'. \<exists>r. processSingleImage (fs ! j) (Suc i + j) = Inr r"
    proof (intro allI impI)
      fix j assume "j < k'"
      then have "Suc j < k" using Suc by simp
      with Cons.prems(3) have "\<exists>r. processSingleImage ((f # fs) ! Suc j) (i + Suc j) = Inr r"
        by blast
      then show "\<exists>r. processSingleImage (fs ! j) (Suc i + j) = Inr r" by simp
    qed
    from Cons.IH [OF a b c, of "acc @ [r]"] r show ?thesis by simp
  qed
qed

definition photo :: "string \<Rightarrow> nat \<Rightarrow> nat \<Rightarrow> imageFile" where
  "photo name w h = \<lparr> file_name = name, file_size = 1000, file_readable = True,
                      file_image = Some (w, h) \<rparr>"

definition batch3 :: "imageFile list" where
  "batch3 = [photo ''a.png'' 4 4, photo ''b.png'' 0 0, photo ''c.png'' 8 6]"

text \<open>
  C1. The batch stops at the first image whose processing fails and throws
  that error again: no result list is returned. It returns a result list, one result per
  image and in order, exactly when every image is processed without error.
\<close>

theorem processImages_first_failure_aborts:
  "(k < length files \<and> processSingleImage (files ! k) k = Inl e
      \<and> (\<forall>j < k. \<exists>r. processSingleImage (files ! j) j = Inr r)
    \<longrightarrow> processImages files = Inl e)
   \<and> ((\<forall>j < length files. \<exists>r. processSingleImage (files ! j) j = Inr r)
    \<longrightarrow> (\<exists>rs. processImages files = Inr rs \<and> length rs = length files
           \<and> (\<forall>j < length files. processSingleImage (files ! j) j = Inr (rs ! j))))"
proof (intro conjI impI)
  assume "k < length files \<and> processSingleImage (files ! k) k = Inl e
      \<and> (\<forall>j < k. \<exists>r. processSingleImage (files ! j) j = Inr r)"
  then show "processImages files = Inl e"
    unfolding processImages_def
    using processLoop_failure [of k files 0 e "[]"] by simp
next
  assume "\<forall>j < length files. \<exists>r. processSingleImage (files ! j) j = Inr r"
  then show "\<exists>rs. processImages files = Inr rs \<and> length rs = length files
           \<and> (\<forall>j < length files. processSingleImage (files ! j) j = Inr (rs ! j))"
    unfolding processImages_def
    using processLoop_success [of files 0 "[]"] by simp
qed

theorem processImages_first_failure_aborts_witness:
  "processImages (take 1 batch3 @ drop 2 batch3)
     = Inr [\<lparr> res_index = 0, res_filename = ''a.png'', res_width = 4, res_height = 4,
              res_fileSize = 1000 \<rparr>,
            \<lparr> res_index = 1, res_filename = ''c.png'', res_width = 8, res_height = 6,
              res_fileSize = 1000 \<rparr>]
   \<and> processImages (drop 1 batch3) = Inl IndexSizeError"
proof -
  let ?ok = "take 1 batch3 @ drop 2 batch3"
  have len: "length ?ok = 2" by (simp add: batch3_def)
  have r0: "processSingleImage (?ok ! 0) 0
            = Inr \<lparr> res_index = 0, res_filename = ''a.png'', res_width = 4, res_height = 4,
                    res_fileSize = 1000 \<rparr>"
    and r1: "processSingleImage (?ok ! 1) 1
            = Inr \<lparr> res_index = 1, res_filename = ''c.png'', res_width = 8, res_height = 6,
                    res_fileSize = 1000 \<rparr>"
    by (simp_all add: batch3_def photo_def processSingleImage_def setupCanvas_def jsRound_def)
  have "\<forall>j < length ?ok. \<exists>r. processSingleImage (?ok ! j) j = Inr r"
  proof (intro allI impI)
    fix j assume "j < length ?ok"
    with len have "j = 0 \<or> j = 1" by auto
    with r0 r1 show "\<exists>r. processSingleImage (?ok ! j) j = Inr r" by auto
  qed
  with processImages_first_failure_aborts [of 0 ?ok IndexSizeError]
  obtain rs where rs: "processImages ?ok = Inr rs" "length rs = length ?ok"
    "\<forall>j < length ?ok. processSingleImage (?ok ! j) j = Inr (rs ! j)" by blast
  from rs(3) len r0 r1 have "rs ! 0 = \<lparr> res_index = 0, res_filename = ''a.png'', res_width = 4,
      res_height = 4, res_fileSize = 1000 \<rparr>"
    and "rs ! 1 = \<lparr> res_index = 1, res_filename = ''c.png'', res_width = 8, res_height = 6,
      res_fileSize = 1000 \<rparr>" by auto
  with rs(2) len have "rs = [\<lparr> res_index = 0, res_filename = ''a.png'', res_width = 4,
      res_height = 4, res_fileSize = 1000 \<rparr>, \<lparr> res_index = 1, res_filename = ''c.png'',
      res_width = 8, res_height = 6, res_fileSize = 1000 \<rparr>]"
    by (cases rs; cases "tl rs") auto
  with rs(1) have a: "processImages ?ok
     = Inr [\<lparr> res_index = 0, res_filename = ''a.png'', res_width = 4, res_height = 4,
              res_fileSize = 1000 \<rparr>,
            \<lparr> res_index = 1, res_filename = ''c.png'', res_width = 8, res_height = 6,
              res_fileSize = 1000 \<rparr>]" by simp
  have f0: "processSingleImage (drop 1 batch3 ! 0) 0 = Inl IndexSizeError"
    by (simp add: batch3_def photo_def processSingleImage_def setupCanvas_def jsRound_def)
  have "0 < length (drop 1 batch3) \<and> processSingleImage (drop 1 batch3 ! 0) 0 = Inl IndexSizeError
        \<and> (\<forall>j < (0::nat). \<exists>r. processSingleImage (drop 1 batch3 ! j) j = Inr r)"
    using f0 by (simp add: batch3_def)
  with processImages_first_failure_aborts [of 0 "drop 1 batch3" IndexSizeError]
  have b: "processImages (drop 1 batch3) = Inl IndexSizeError" by blast
  from a b show ?thesis by blast
qed

text \<open>
  The statement of the specification fails on the batch of 3 images whose second image has no width
  and no height: the call throws the error of that image and returns no result list.
\<close>

theorem processImages_batch_counterexample:
  "processImages batch3 = Inl IndexSizeError"
  by (simp add: processImages_def batch3_def photo_def processSingleImage_def setupCanvas_def
        jsRound_def)

end
